theory Spec2Isabelle
  imports Main "HOL-Library.Word"
begin

section \<open>Data model of rbtree.h\<close>

text \<open>
  Nodes live in caller-owned memory and are linked by raw pointers, so the embedding keeps
  an explicit store: a pointer is a 64-bit address (\<open>unsigned long\<close> is used for pointer
  arithmetic in \<open>RBTREE_SEARCH\<close>), \<open>NULL\<close> is address 0, and the heap maps every address
  to the \<open>struct rbnode\<close> stored there. Reading or writing through \<open>NULL\<close> is the fault
  \<open>NullDeref\<close>. The key is an opaque \<open>void *\<close> in the source; here it is a value of an
  arbitrary type \<open>'k\<close>, and the comparator works on such values.
\<close>

datatype NodeColor_t =
  NODE_COLOR_NONE | NODE_COLOR_BLACK | NODE_COLOR_RED | NODE_COLOR_DOUBLE_BLACK | NODE_COLOR_MAX

type_synonym ptr = "64 word"

abbreviation NULL :: ptr where "NULL \<equiv> 0"

record 'k rbnode =
  color :: NodeColor_t
  left :: ptr
  right :: ptr
  parent :: ptr
  key :: 'k

type_synonym 'k heap = "ptr \<Rightarrow> 'k rbnode"

type_synonym 'k compareFunc = "'k \<Rightarrow> 'k \<Rightarrow> int"

text \<open>\<open>struct rbtree\<close>; the field \<open>size\<close> is called \<open>size_rb\<close> here.\<close>

record 'k rbtree =
  root :: ptr
  comparer :: "'k compareFunc"
  rb_offset :: "64 word"
  size_rb :: int

datatype fault = NullDeref | OutOfFuel

text \<open>Field assignments \<open>p->f = v\<close> on the store.\<close>

definition set_color :: "ptr \<Rightarrow> NodeColor_t \<Rightarrow> 'k heap \<Rightarrow> 'k heap" where
  "set_color p v h = h(p := (h p)\<lparr>color := v\<rparr>)"

definition set_left :: "ptr \<Rightarrow> ptr \<Rightarrow> 'k heap \<Rightarrow> 'k heap" where
  "set_left p v h = h(p := (h p)\<lparr>left := v\<rparr>)"

definition set_right :: "ptr \<Rightarrow> ptr \<Rightarrow> 'k heap \<Rightarrow> 'k heap" where
  "set_right p v h = h(p := (h p)\<lparr>right := v\<rparr>)"

definition set_parent :: "ptr \<Rightarrow> ptr \<Rightarrow> 'k heap \<Rightarrow> 'k heap" where
  "set_parent p v h = h(p := (h p)\<lparr>parent := v\<rparr>)"

text \<open>The macro parameters \<open>dir\<close> and \<open>revdir\<close> of \<open>ROTATE_TREE\<close> are field names.\<close>

datatype dir = dir_left | dir_right

definition child :: "dir \<Rightarrow> 'k rbnode \<Rightarrow> ptr" where
  "child d n = (case d of dir_left \<Rightarrow> left n | dir_right \<Rightarrow> right n)"

definition set_child :: "dir \<Rightarrow> ptr \<Rightarrow> ptr \<Rightarrow> 'k heap \<Rightarrow> 'k heap" where
  "set_child d p v h = (case d of dir_left \<Rightarrow> set_left p v h | dir_right \<Rightarrow> set_right p v h)"

section \<open>Initialisation macros\<close>

definition INIT_RBTREE :: "'k rbtree \<Rightarrow> 'k compareFunc \<Rightarrow> 'k rbtree" where
  "INIT_RBTREE rbtree cmp = rbtree\<lparr>root := NULL, comparer := cmp, size_rb := 0\<rparr>"

definition INIT_RBNODE :: "ptr \<Rightarrow> 'k \<Rightarrow> 'k heap \<Rightarrow> 'k heap" where
  "INIT_RBNODE rbnode k h =
     h(rbnode := \<lparr>color = NODE_COLOR_RED, left = NULL, right = NULL, parent = NULL, key = k\<rparr>)"

text \<open>\<open>OFFSET_OF(_type, _mem)\<close> depends on the layout of the caller's record; it is the
  parameter \<open>off\<close>.\<close>

definition INIT_RBTREE_TYPE :: "'k rbtree \<Rightarrow> 'k compareFunc \<Rightarrow> 64 word \<Rightarrow> 'k rbtree" where
  "INIT_RBTREE_TYPE rbtree cmp off =
     rbtree\<lparr>root := NULL, comparer := cmp, size_rb := 0, rb_offset := off\<rparr>"

text \<open>\<open>INIT_RBNODE_TYPE(_elem, _rbnode, _type, _key)\<close> initialises the node embedded in the
  record at \<open>elem\<close>, that is the node at address \<open>elem + off\<close>.\<close>

definition INIT_RBNODE_TYPE :: "ptr \<Rightarrow> 64 word \<Rightarrow> 'k \<Rightarrow> 'k heap \<Rightarrow> 'k heap" where
  "INIT_RBNODE_TYPE elem off k h = INIT_RBNODE (elem + off) k h"

section \<open>Rotation\<close>

definition ROTATE_TREE :: "dir \<Rightarrow> dir \<Rightarrow> ptr \<Rightarrow> ptr \<Rightarrow> 'k heap \<Rightarrow> fault + (ptr \<times> 'k heap)" where
  "ROTATE_TREE d revd node rt h =
    (if node = NULL then Inl NullDeref
     else let pivot = child revd (h node) in
       if pivot = NULL then Inl NullDeref
       else let h1 = set_child revd node (child d (h pivot)) h;
                h2 = (if child d (h1 pivot) \<noteq> NULL
                      then set_parent (child d (h1 pivot)) node h1 else h1);
                h3 = set_parent pivot (parent (h2 node)) h2
            in if parent (h3 node) = NULL
               then Inr (pivot, set_child d pivot node h3)
               else if node = left (h3 (parent (h3 node)))
               then Inr (rt, set_child d pivot node (set_left (parent (h3 node)) pivot h3))
               else Inr (rt, set_child d pivot node (set_right (parent (h3 node)) pivot h3)))"

section \<open>Unbalanced placement and search\<close>

text \<open>The recursion follows pointers of an arbitrary store, so it carries fuel.\<close>

fun BstInsert :: "nat \<Rightarrow> 'k compareFunc \<Rightarrow> ptr \<Rightarrow> ptr \<Rightarrow> 'k heap \<Rightarrow> fault + (ptr \<times> 'k heap)" where
  "BstInsert 0 cmp rt node h = Inl OutOfFuel"
| "BstInsert (Suc n) cmp rt node h =
    (if rt = NULL then Inr (node, h)
     else if node = NULL then Inl NullDeref
     else if 0 < cmp (key (h rt)) (key (h node)) then
       (case BstInsert n cmp (left (h rt)) node h of
          Inl e \<Rightarrow> Inl e
        | Inr (l, h1) \<Rightarrow>
            let h2 = set_left rt l h1 in
            if left (h2 rt) = NULL then Inl NullDeref
            else Inr (rt, set_parent (left (h2 rt)) rt h2))
     else
       (case BstInsert n cmp (right (h rt)) node h of
          Inl e \<Rightarrow> Inl e
        | Inr (r, h1) \<Rightarrow>
            let h2 = set_right rt r h1 in
            if right (h2 rt) = NULL then Inl NullDeref
            else Inr (rt, set_parent (right (h2 rt)) rt h2)))"

fun BstSearch :: "nat \<Rightarrow> 'k compareFunc \<Rightarrow> ptr \<Rightarrow> 'k \<Rightarrow> 'k heap \<Rightarrow> fault + ptr" where
  "BstSearch 0 cmp rt k h = Inl OutOfFuel"
| "BstSearch (Suc n) cmp rt k h =
    (if rt = NULL then Inr NULL
     else let ret = cmp (key (h rt)) k in
       if ret = 0 then Inr rt
       else if 0 < ret then BstSearch n cmp (left (h rt)) k h
       else BstSearch n cmp (right (h rt)) k h)"

definition searchKey :: "nat \<Rightarrow> 'k rbtree \<Rightarrow> 'k \<Rightarrow> 'k heap \<Rightarrow> fault + ptr" where
  "searchKey n tree k h = BstSearch n (comparer tree) (root tree) k h"

definition RBTREE_SEARCH :: "nat \<Rightarrow> 'k rbtree \<Rightarrow> 'k \<Rightarrow> 'k heap \<Rightarrow> fault + ptr" where
  "RBTREE_SEARCH n tree k h =
     (case BstSearch n (comparer tree) (root tree) k h of
        Inl e \<Rightarrow> Inl e
      | Inr node \<Rightarrow> Inr (if node \<noteq> NULL then node - rb_offset tree else NULL))"

section \<open>Splice-style removal\<close>

text \<open>The loop \<open>while (NULL != p->left) p = p->left;\<close> of \<open>BstDelete\<close>.\<close>

fun BstDelete_while :: "nat \<Rightarrow> ptr \<Rightarrow> 'k heap \<Rightarrow> fault + ptr" where
  "BstDelete_while 0 p h = Inl OutOfFuel"
| "BstDelete_while (Suc n) p h =
    (if p = NULL then Inl NullDeref
     else if left (h p) \<noteq> NULL then BstDelete_while n (left (h p)) h
     else Inr p)"

text \<open>The part of \<open>BstDelete\<close> from \<open>case 2\<close> on; control reaches it also after the leaf
  case has unlinked a leaf that has a parent.\<close>

definition BstDelete_cases :: "nat \<Rightarrow> ptr \<Rightarrow> ptr \<Rightarrow> 'k heap \<Rightarrow> fault + (ptr \<times> 'k heap)" where
  "BstDelete_cases n rt node h =
    (if \<not> (left (h node) \<noteq> NULL \<and> right (h node) \<noteq> NULL) then
       (let par = parent (h node) in
        if par = NULL then Inl NullDeref
        else if left (h par) = node then
          (let h1 = set_left par
                      (if left (h node) \<noteq> NULL then left (h node) else right (h node)) h
           in if left (h1 par) = NULL then Inl NullDeref
              else Inr (rt, set_parent (left (h1 par)) par h1))
        else
          (let h1 = set_right par
                      (if left (h node) \<noteq> NULL then left (h node) else right (h node)) h
           in if right (h1 par) = NULL then Inl NullDeref
              else Inr (rt, set_parent (right (h1 par)) par h1)))
     else
       (case BstDelete_while n (right (h node)) h of
          Inl e \<Rightarrow> Inl e
        | Inr p \<Rightarrow>
            if parent (h p) = NULL then Inl NullDeref
            else
              let h2 = (if right (h p) \<noteq> NULL
                        then (let h1 = set_left (parent (h p)) (right (h p)) h
                              in set_parent (right (h1 p)) (parent (h1 p)) h1)
                        else set_left (parent (h p)) NULL h);
                  h3 = (if parent (h2 node) \<noteq> NULL \<and> left (h2 (parent (h2 node))) = node
                        then set_left (parent (h2 node)) p h2
                        else if parent (h2 node) \<noteq> NULL \<and> right (h2 (parent (h2 node))) = node
                        then set_right (parent (h2 node)) p h2
                        else h2);
                  h4 = set_left p (left (h3 node)) h3;
                  h5 = set_right p (right (h4 node)) h4;
                  h6 = set_parent p (parent (h5 node)) h5
              in Inr (if rt = node then p else rt, h6)))"

definition BstDelete :: "nat \<Rightarrow> ptr \<Rightarrow> ptr \<Rightarrow> 'k heap \<Rightarrow> fault + (ptr \<times> 'k heap)" where
  "BstDelete n rt node h =
    (if node = NULL then Inl NullDeref
     else if left (h node) = NULL \<and> right (h node) = NULL then
       (if parent (h node) = NULL then Inr (NULL, h)
        else if node = left (h (parent (h node)))
        then BstDelete_cases n rt node (set_left (parent (h node)) NULL h)
        else BstDelete_cases n rt node (set_right (parent (h node)) NULL h))
     else BstDelete_cases n rt node h)"

text \<open>\<open>deleteRbNode\<close> stores the result of \<open>BstDelete\<close> in a local variable and ends; the
  tree record is passed through as it is.\<close>

definition deleteRbNode :: "nat \<Rightarrow> 'k rbtree \<Rightarrow> ptr \<Rightarrow> 'k heap \<Rightarrow> fault + ('k rbtree \<times> 'k heap)" where
  "deleteRbNode n rbtree node h =
     (case BstDelete n (root rbtree) node h of
        Inl e \<Rightarrow> Inl e
      | Inr (rt, h1) \<Rightarrow> Inr (rbtree, h1))"

section \<open>Insertion with rebalancing\<close>

definition SWAP_COLOR :: "ptr \<Rightarrow> ptr \<Rightarrow> 'k heap \<Rightarrow> 'k heap" where
  "SWAP_COLOR node_a node_b h =
     (let c = color (h node_a);
          h1 = set_color node_a (color (h node_b)) h
      in set_color node_b c h1)"

text \<open>The \<open>while\<close> loop of \<open>insertRbNode\<close>; it returns the local \<open>root\<close> and the store.\<close>

fun insert_while :: "nat \<Rightarrow> ptr \<Rightarrow> ptr \<Rightarrow> 'k heap \<Rightarrow> fault + (ptr \<times> 'k heap)" where
  "insert_while 0 rt rbnode h = Inl OutOfFuel"
| "insert_while (Suc n) rt rbnode h =
    (if rbnode = rt then Inr (rt, h)
     else if rbnode = NULL then Inl NullDeref
     else if color (h rbnode) = NODE_COLOR_BLACK then Inr (rt, h)
     else if parent (h rbnode) = NULL then Inl NullDeref
     else if color (h (parent (h rbnode))) \<noteq> NODE_COLOR_RED then Inr (rt, h)
     else
       let par = parent (h rbnode);
           grandparent = parent (h par)
       in if grandparent = NULL then Inl NullDeref
          else
            let isParentLeftChild = (par = left (h grandparent));
                uncle = (if isParentLeftChild then right (h grandparent)
                         else left (h grandparent))
            in if uncle \<noteq> NULL \<and> color (h uncle) = NODE_COLOR_RED then
                 insert_while n rt grandparent
                   (set_color par NODE_COLOR_BLACK
                     (set_color uncle NODE_COLOR_BLACK
                       (set_color grandparent NODE_COLOR_RED h)))
               else if isParentLeftChild then
                 (case (if rbnode = right (h par)
                        then (case ROTATE_TREE dir_left dir_right par rt h of
                                Inl e \<Rightarrow> Inl e
                              | Inr (rt1, h1) \<Rightarrow> Inr (rt1, h1, parent (h1 par)))
                        else Inr (rt, h, par)) of
                    Inl e \<Rightarrow> Inl e
                  | Inr (rt1, h1, par1) \<Rightarrow>
                      (case ROTATE_TREE dir_right dir_left grandparent rt1 h1 of
                         Inl e \<Rightarrow> Inl e
                       | Inr (rt2, h2) \<Rightarrow>
                           if par1 = NULL then Inl NullDeref
                           else insert_while n rt2 par1 (SWAP_COLOR grandparent par1 h2)))
               else
                 (case (if rbnode = left (h par)
                        then (case ROTATE_TREE dir_right dir_left par rt h of
                                Inl e \<Rightarrow> Inl e
                              | Inr (rt1, h1) \<Rightarrow> Inr (rt1, h1, parent (h1 par)))
                        else Inr (rt, h, par)) of
                    Inl e \<Rightarrow> Inl e
                  | Inr (rt1, h1, par1) \<Rightarrow>
                      (case ROTATE_TREE dir_left dir_right grandparent rt1 h1 of
                         Inl e \<Rightarrow> Inl e
                       | Inr (rt2, h2) \<Rightarrow>
                           if par1 = NULL then Inl NullDeref
                           else insert_while n rt2 par1 (SWAP_COLOR grandparent par1 h2))))"

text \<open>\<open>insertRbNode\<close> returns its \<open>int\<close> result together with the tree record and the
  store. The same fuel bounds the placement recursion and the loop.\<close>

definition insertRbNode :: "nat \<Rightarrow> 'k rbtree \<Rightarrow> ptr \<Rightarrow> 'k heap \<Rightarrow> fault + (int \<times> 'k rbtree \<times> 'k heap)" where
  "insertRbNode n rbtree rbnode h =
     (case BstInsert n (comparer rbtree) (root rbtree) rbnode h of
        Inl e \<Rightarrow> Inl e
      | Inr (rt, h1) \<Rightarrow>
          (case insert_while n rt rbnode h1 of
             Inl e \<Rightarrow> Inl e
           | Inr (rt1, h2) \<Rightarrow>
               if rt1 = NULL then Inl NullDeref
               else Inr (0, rbtree\<lparr>root := rt1\<rparr>, set_color rt1 NODE_COLOR_BLACK h2)))"

section \<open>Traversal\<close>

text \<open>\<open>InorderTraversal\<close> calls the visitor \<open>pfunc\<close> on each key; the model returns the
  keys in the order of the calls (the colour escape sequences printed around each call are
  left out).\<close>

fun InorderTraversal :: "nat \<Rightarrow> ptr \<Rightarrow> 'k heap \<Rightarrow> fault + 'k list" where
  "InorderTraversal 0 rbnode h = Inl OutOfFuel"
| "InorderTraversal (Suc n) rbnode h =
    (if rbnode = NULL then Inr []
     else case InorderTraversal n (left (h rbnode)) h of
            Inl e \<Rightarrow> Inl e
          | Inr ls \<Rightarrow>
              (case InorderTraversal n (right (h rbnode)) h of
                 Inl e \<Rightarrow> Inl e
               | Inr rs \<Rightarrow> Inr (ls @ key (h rbnode) # rs)))"

definition inorderTraversal :: "nat \<Rightarrow> 'k rbtree \<Rightarrow> 'k heap \<Rightarrow> fault + 'k list" where
  "inorderTraversal n tree h = InorderTraversal n (root tree) h"

section \<open>Reading a tree off the store, and the invariants of the data model\<close>

text \<open>The shape reachable from a pointer through \<open>left\<close> and \<open>right\<close>, as a tree of node
  addresses. \<open>tree_of\<close> reads it with fuel; \<open>istree\<close> checks a given shape.\<close>

datatype shape = Tip | Br shape ptr shape

fun tree_of :: "nat \<Rightarrow> ptr \<Rightarrow> 'k heap \<Rightarrow> shape option" where
  "tree_of 0 p h = None"
| "tree_of (Suc n) p h =
    (if p = NULL then Some Tip
     else case tree_of n (left (h p)) h of
            None \<Rightarrow> None
          | Some l \<Rightarrow>
              (case tree_of n (right (h p)) h of
                 None \<Rightarrow> None
               | Some r \<Rightarrow> Some (Br l p r)))"

fun istree :: "'k heap \<Rightarrow> ptr \<Rightarrow> shape \<Rightarrow> bool" where
  "istree h p Tip = (p = NULL)"
| "istree h p (Br l a r) =
    (p = a \<and> a \<noteq> NULL \<and> istree h (left (h a)) l \<and> istree h (right (h a)) r)"

fun nodes :: "shape \<Rightarrow> ptr list" where
  "nodes Tip = []"
| "nodes (Br l a r) = nodes l @ a # nodes r"

fun height :: "shape \<Rightarrow> nat" where
  "height Tip = 0"
| "height (Br l a r) = Suc (max (height l) (height r))"

text \<open>Invariants 1 to 5 of the data model, over the shape read off the store.\<close>

definition inv_colors :: "'k heap \<Rightarrow> shape \<Rightarrow> bool" where
  "inv_colors h t =
     list_all (\<lambda>a. color (h a) = NODE_COLOR_RED \<or> color (h a) = NODE_COLOR_BLACK) (nodes t)"

definition inv_root_black :: "'k heap \<Rightarrow> shape \<Rightarrow> bool" where
  "inv_root_black h t = (case t of Tip \<Rightarrow> True | Br l a r \<Rightarrow> color (h a) = NODE_COLOR_BLACK)"

definition is_red :: "'k heap \<Rightarrow> shape \<Rightarrow> bool" where
  "is_red h t = (case t of Tip \<Rightarrow> False | Br l a r \<Rightarrow> color (h a) = NODE_COLOR_RED)"

fun inv_no_red_red :: "'k heap \<Rightarrow> shape \<Rightarrow> bool" where
  "inv_no_red_red h Tip = True"
| "inv_no_red_red h (Br l a r) =
    ((if color (h a) = NODE_COLOR_RED then \<not> is_red h l \<and> \<not> is_red h r else True)
     \<and> inv_no_red_red h l \<and> inv_no_red_red h r)"

text \<open>The number of BLACK nodes on each path from the root to a null link.\<close>

fun black_counts :: "'k heap \<Rightarrow> shape \<Rightarrow> nat list" where
  "black_counts h Tip = [0]"
| "black_counts h (Br l a r) =
    map (\<lambda>c. (if color (h a) = NODE_COLOR_BLACK then Suc c else c))
        (black_counts h l @ black_counts h r)"

definition inv_black_height :: "'k heap \<Rightarrow> shape \<Rightarrow> bool" where
  "inv_black_height h t = list_all (\<lambda>c. c = hd (black_counts h t)) (black_counts h t)"

fun inv_bst :: "'k compareFunc \<Rightarrow> 'k heap \<Rightarrow> shape \<Rightarrow> bool" where
  "inv_bst cmp h Tip = True"
| "inv_bst cmp h (Br l a r) =
    (list_all (\<lambda>b. cmp (key (h b)) (key (h a)) < 0) (nodes l)
     \<and> list_all (\<lambda>b. 0 \<le> cmp (key (h b)) (key (h a))) (nodes r)
     \<and> inv_bst cmp h l \<and> inv_bst cmp h r)"

definition rb_invariants :: "'k compareFunc \<Rightarrow> 'k heap \<Rightarrow> shape \<Rightarrow> bool" where
  "rb_invariants cmp h t =
     (inv_colors h t \<and> inv_root_black h t \<and> inv_no_red_red h t
      \<and> inv_black_height h t \<and> inv_bst cmp h t)"

section \<open>The callers of rbtree.c\<close>

definition intcomparer :: "int compareFunc" where
  "intcomparer a b = (if a = b then 0 else if a < b then - 1 else 1)"

text \<open>A sequence of calls on one tree: \<open>Ins p\<close> is \<open>insertRbNode(tree, p)\<close> and \<open>Del p\<close> is
  \<open>deleteRbNode(tree, p)\<close>.\<close>

datatype call = Ins ptr | Del ptr

fun run_calls :: "nat \<Rightarrow> call list \<Rightarrow> 'k rbtree \<Rightarrow> 'k heap \<Rightarrow> fault + ('k rbtree \<times> 'k heap)" where
  "run_calls n [] tree h = Inr (tree, h)"
| "run_calls n (Ins p # cs) tree h =
    (case insertRbNode n tree p h of
       Inl e \<Rightarrow> Inl e
     | Inr (ret, tree1, h1) \<Rightarrow> run_calls n cs tree1 h1)"
| "run_calls n (Del p # cs) tree h =
    (case deleteRbNode n tree p h of
       Inl e \<Rightarrow> Inl e
     | Inr (tree1, h1) \<Rightarrow> run_calls n cs tree1 h1)"

text \<open>Memory before the callers initialise anything, and a tree record with arbitrary
  contents of that kind.\<close>

definition blank :: "int heap" where
  "blank = (\<lambda>p. \<lparr>color = NODE_COLOR_NONE, left = NULL, right = NULL, parent = NULL, key = 0\<rparr>)"

definition foocomparer :: "int compareFunc" where
  "foocomparer l r = (if l = r then 0 else if l < r then - 1 else 1)"

definition blank_tree :: "int rbtree" where
  "blank_tree = \<lparr>root = NULL, comparer = (\<lambda>a b. 0), rb_offset = 0, size_rb = 0\<rparr>"

text \<open>\<open>INIT_RBNODE\<close> for a list of (node address, key) pairs, in order.\<close>

fun init_nodes :: "(ptr \<times> 'k) list \<Rightarrow> 'k heap \<Rightarrow> 'k heap" where
  "init_nodes [] h = h"
| "init_nodes ((p, k) # ps) h = init_nodes ps (INIT_RBNODE p k h)"

section \<open>Placement and search as the specification words them\<close>

text \<open>
  The descent of the specification: from the root, a key that is strictly less than the
  visited node's key goes left, everything else (ties included) goes right. The comparator
  is positive when its first argument is the greater one, so the new key \<open>k\<close> is strictly
  less than the key of \<open>a\<close> when \<open>0 < cmp (key a) k\<close>. \<open>descent\<close> lists the visited
  nodes down to the null link.
\<close>

fun descent :: "'k compareFunc \<Rightarrow> 'k heap \<Rightarrow> 'k \<Rightarrow> shape \<Rightarrow> ptr list" where
  "descent cmp h k Tip = []"
| "descent cmp h k (Br l a r) =
     a # (if 0 < cmp (key (h a)) k then descent cmp h k l else descent cmp h k r)"

text \<open>Search as specified: the first node of the descent whose key compares equal, or
  \<open>NULL\<close> when there is none.\<close>

definition first_equal :: "'k compareFunc \<Rightarrow> 'k heap \<Rightarrow> 'k \<Rightarrow> ptr list \<Rightarrow> ptr" where
  "first_equal cmp h k ps =
     (case List.find (\<lambda>a. cmp (key (h a)) k = 0) ps of None \<Rightarrow> NULL | Some a \<Rightarrow> a)"

text \<open>Placement as specified: the new node becomes a leaf at the first null position of
  the descent.\<close>

fun place :: "'k compareFunc \<Rightarrow> 'k heap \<Rightarrow> ptr \<Rightarrow> shape \<Rightarrow> shape" where
  "place cmp h node Tip = Br Tip node Tip"
| "place cmp h node (Br l a r) =
     (if 0 < cmp (key (h a)) (key (h node)) then Br (place cmp h node l) a r
      else Br l a (place cmp h node r))"

text \<open>\<open>left_of a x t\<close>: in \<open>t\<close> the node \<open>x\<close> lies in the left subtree of the node \<open>a\<close>;
  \<open>right_of\<close> likewise.\<close>

fun left_of :: "ptr \<Rightarrow> ptr \<Rightarrow> shape \<Rightarrow> bool" where
  "left_of a x Tip = False"
| "left_of a x (Br l b r) = ((b = a \<and> x \<in> set (nodes l)) \<or> left_of a x l \<or> left_of a x r)"

fun right_of :: "ptr \<Rightarrow> ptr \<Rightarrow> shape \<Rightarrow> bool" where
  "right_of a x Tip = False"
| "right_of a x (Br l b r) = ((b = a \<and> x \<in> set (nodes r)) \<or> right_of a x l \<or> right_of a x r)"

text \<open>
  Paths written from a node up to the root. \<open>upchain\<close>: the parent link of each node is
  the next node of the path. \<open>upstruct\<close>: the nodes are distinct and non-null, each is a
  child of the next one, and no child of a node is among that node's ancestors.
  \<open>upcol\<close>: a RED node of the path that has a parent on the path has a BLACK one.
\<close>

fun upchain :: "'k heap \<Rightarrow> ptr list \<Rightarrow> bool" where
  "upchain g (x # y # ys) = (parent (g x) = y \<and> upchain g (y # ys))"
| "upchain g _ = True"

fun upstruct :: "'k heap \<Rightarrow> ptr list \<Rightarrow> bool" where
  "upstruct g [] = True"
| "upstruct g (x # ys) =
    (x \<noteq> NULL \<and> x \<notin> set ys \<and> left (g x) \<notin> set ys \<and> right (g x) \<notin> set ys
     \<and> (case ys of [] \<Rightarrow> True | y # zs \<Rightarrow> x = left (g y) \<or> x = right (g y))
     \<and> upstruct g ys)"

fun upcol :: "'k heap \<Rightarrow> ptr list \<Rightarrow> bool" where
  "upcol g (y # z # zs) =
    ((if color (g y) = NODE_COLOR_RED then color (g z) = NODE_COLOR_BLACK else True)
     \<and> upcol g (z # zs))"
| "upcol g _ = True"

text \<open>What \<open>BstInsert\<close> is to establish: it returns the old root (the new node for an empty
  tree); the store holds the tree with the node placed; only nodes of the tree and the new
  node are written, and no key or colour; the parent link of the new node points to the last
  node of the descent, and on the path from the new node up to the root every parent link
  points to the next node.\<close>

definition placed ::
  "'k compareFunc \<Rightarrow> 'k heap \<Rightarrow> ptr \<Rightarrow> ptr \<Rightarrow> shape \<Rightarrow> ptr \<Rightarrow> 'k heap \<Rightarrow> bool" where
  "placed cmp h rt node t rt' h' =
     (rt' = (if rt = NULL then node else rt)
      \<and> istree h' rt' (place cmp h node t)
      \<and> (\<forall>p. p \<notin> set (nodes t) \<and> p \<noteq> node \<longrightarrow> h' p = h p)
      \<and> (\<forall>p. key (h' p) = key (h p) \<and> color (h' p) = color (h p))
      \<and> (if t = Tip then h' = h
          else parent (h' node) = last (descent cmp h (key (h node)) t))
      \<and> upchain h' (node # rev (descent cmp h (key (h node)) t)))"

text \<open>The state a sequence of calls leaves behind, when it returns.\<close>

definition after_calls :: "nat \<Rightarrow> call list \<Rightarrow> 'k rbtree \<Rightarrow> 'k heap \<Rightarrow> 'k rbtree \<times> 'k heap" where
  "after_calls n cs tree h = projr (run_calls n cs tree h)"

section \<open>Placement\<close>

lemma nodes_place: "set (nodes (place cmp h node t)) = insert node (set (nodes t))"
  by (induction t) auto

lemma istree_frame:
  "\<forall>a \<in> set (nodes t). left (h' a) = left (h a) \<and> right (h' a) = right (h a) \<Longrightarrow>
   istree h' p t = istree h p t"
  by (induction t arbitrary: p) auto

lemma istree_null: "istree h p t \<Longrightarrow> (p = NULL) = (t = Tip)"
  by (cases t) auto

lemma istree_root_mem: "istree h p t \<Longrightarrow> p \<noteq> NULL \<Longrightarrow> p \<in> set (nodes t)"
  by (cases t) auto

lemma descent_nonempty: "t \<noteq> Tip \<Longrightarrow> descent cmp h k t \<noteq> []"
  by (cases t) auto

lemma descent_subset: "set (descent cmp h k t) \<subseteq> set (nodes t)"
  by (induction t) auto

lemma distinct_descent: "distinct (nodes t) \<Longrightarrow> distinct (descent cmp h k t)"
proof (induction t)
  case Tip
  then show ?case by simp
next
  case (Br l a r)
  from descent_subset[of cmp h k l] descent_subset[of cmp h k r] Br.prems
  have "a \<notin> set (descent cmp h k l)" "a \<notin> set (descent cmp h k r)" by auto
  with Br show ?case by simp
qed

lemma descent_hd: "istree g p t \<Longrightarrow> t \<noteq> Tip \<Longrightarrow> hd (descent cmp h k t) = p"
  by (cases t) auto

lemma length_descent: "length (descent cmp h k t) \<le> height t"
  by (induction t) auto

lemma upchain_snoc:
  "upchain g (u @ [a]) = (upchain g u \<and> (u \<noteq> [] \<longrightarrow> parent (g (last u)) = a))"
  by (induction g u rule: upchain.induct) auto

lemma upchain_cong:
  "\<forall>x \<in> set (butlast u). parent (g' x) = parent (g x) \<Longrightarrow> upchain g' u = upchain g u"
  by (induction g u rule: upchain.induct) auto

lemma last_notin_butlast: "distinct u \<Longrightarrow> u \<noteq> [] \<Longrightarrow> last u \<notin> set (butlast u)"
  by (induction u) auto

lemma up_path_facts:
  assumes "istree h p t" and "distinct (nodes t)" and "node \<notin> set (nodes t)"
    and "c = (if p = NULL then node else p)"
  shows "distinct (node # rev (descent cmp h k t))"
    and "last (node # rev (descent cmp h k t)) = c"
proof -
  show "distinct (node # rev (descent cmp h k t))"
    using assms(2,3) distinct_descent[of t cmp h k] descent_subset[of cmp h k t] by auto
  show "last (node # rev (descent cmp h k t)) = c"
  proof (cases t)
    case Tip
    with assms(1,4) show ?thesis by simp
  next
    case (Br l a r)
    with assms(1,4) show ?thesis by (simp add: last_rev)
  qed
qed

lemma BstInsert_placed:
  assumes "istree h rt t" and "distinct (nodes t)" and "node \<notin> set (nodes t)"
    and "node \<noteq> NULL" and "left (h node) = NULL" and "right (h node) = NULL"
    and "height t < n"
  shows "\<exists>rt' h'. BstInsert n cmp rt node h = Inr (rt', h') \<and> placed cmp h rt node t rt' h'"
  using assms
proof (induction t arbitrary: rt n)
  case Tip
  then show ?case by (cases n) (auto simp: placed_def)
next
  case (Br l a r)
  then obtain m where n: "n = Suc m" by (cases n) auto
  from Br.prems n have hl: "height l < m" and hr: "height r < m" by auto
  from Br.prems have rt: "rt = a" "a \<noteq> NULL" and il: "istree h (left (h a)) l"
    and ir: "istree h (right (h a)) r" by auto
  from Br.prems have dl: "distinct (nodes l)" and dr: "distinct (nodes r)"
    and al: "a \<notin> set (nodes l)" and ar: "a \<notin> set (nodes r)"
    and lr: "set (nodes l) \<inter> set (nodes r) = {}"
    and nl: "node \<notin> set (nodes l)" and nr: "node \<notin> set (nodes r)" and na: "node \<noteq> a"
    by auto
  show ?case
  proof (cases "0 < cmp (key (h a)) (key (h node))")
    case True
    from Br.IH(1)[OF il dl nl Br.prems(4,5,6) hl]
    obtain l' h1 where b: "BstInsert m cmp (left (h a)) node h = Inr (l', h1)"
      and p: "placed cmp h (left (h a)) node l l' h1" by blast
    from p have l': "l' = (if left (h a) = NULL then node else left (h a))"
      and t1: "istree h1 l' (place cmp h node l)"
      and fr: "\<And>p. p \<notin> set (nodes l) \<Longrightarrow> p \<noteq> node \<Longrightarrow> h1 p = h p"
      and kc: "\<And>p. key (h1 p) = key (h p) \<and> color (h1 p) = color (h p)"
      and par: "if l = Tip then h1 = h else parent (h1 node) = last (descent cmp h (key (h node)) l)"
      and uc: "upchain h1 (node # rev (descent cmp h (key (h node)) l))"
      by (auto simp: placed_def)
    from l' Br.prems(4) have l0: "l' \<noteq> NULL" by auto
    from istree_root_mem[OF t1 l0] have lmem: "l' \<in> insert node (set (nodes l))"
      by (simp add: nodes_place)
    with al na have la: "l' \<noteq> a" by auto
    let ?h3 = "set_parent l' a (set_left a l' h1)"
    have res: "BstInsert n cmp rt node h = Inr (a, ?h3)"
      using n rt True b l0 Br.prems(4) by (simp add: set_left_def)
    have h1a: "h1 a = h a" using fr al na by simp
    have i1: "istree ?h3 l' (place cmp h node l)"
      using t1 al na la
      by (subst istree_frame[where h = h1]) (auto simp: nodes_place set_parent_def set_left_def)
    have eq: "?h3 b = h b" if "b \<in> set (nodes r)" for b
    proof -
      from that lr nr ar lmem have "b \<notin> set (nodes l)" "b \<noteq> node" "b \<noteq> a" "b \<noteq> l'"
        by auto
      then show ?thesis using fr by (simp add: set_parent_def set_left_def)
    qed
    have i2: "istree ?h3 (right (h a)) r"
      using ir eq by (subst istree_frame[where h = h]) auto
    have i: "istree ?h3 a (place cmp h node (Br l a r))"
      using True rt i1 i2 la h1a by (simp add: set_parent_def set_left_def)
    have frame: "\<forall>p. p \<notin> set (nodes (Br l a r)) \<and> p \<noteq> node \<longrightarrow> ?h3 p = h p"
      using fr lmem by (auto simp: set_parent_def set_left_def)
    have keys: "\<forall>p. key (?h3 p) = key (h p) \<and> color (?h3 p) = color (h p)"
      using kc by (auto simp: set_parent_def set_left_def)
    have parn: "parent (?h3 node) = last (descent cmp h (key (h node)) (Br l a r))"
    proof (cases "l = Tip")
      case True
      with il have "left (h a) = NULL" by simp
      with l' have "l' = node" by simp
      with True \<open>0 < cmp (key (h a)) (key (h node))\<close> show ?thesis
        by (simp add: set_parent_def set_left_def)
    next
      case False
      with il istree_null[OF il] have "left (h a) \<noteq> NULL" by simp
      with l' have "l' = left (h a)" by simp
      with istree_root_mem[OF il] \<open>left (h a) \<noteq> NULL\<close> nl have "l' \<noteq> node" by auto
      with False par na \<open>0 < cmp (key (h a)) (key (h node))\<close> descent_nonempty[OF False, of cmp h "key (h node)"]
      show ?thesis by (simp add: set_parent_def set_left_def)
    qed
    let ?u = "node # rev (descent cmp h (key (h node)) l)"
    from up_path_facts[OF il dl nl l', of cmp "key (h node)"]
    have du: "distinct ?u" and lu: "last ?u = l'" by simp_all
    from last_notin_butlast[OF du] lu have "l' \<notin> set (butlast ?u)" by simp
    then have "\<forall>x \<in> set (butlast ?u). parent (?h3 x) = parent (h1 x)"
      by (auto simp: set_parent_def set_left_def)
    from upchain_cong[OF this] uc have "upchain ?h3 ?u" by simp
    moreover have "parent (?h3 (last ?u)) = a" unfolding lu by (simp add: set_parent_def)
    ultimately have "upchain ?h3 (?u @ [a])" unfolding upchain_snoc by simp
    moreover have "node # rev (descent cmp h (key (h node)) (Br l a r)) = ?u @ [a]"
      using \<open>0 < cmp (key (h a)) (key (h node))\<close> by simp
    ultimately have ucn: "upchain ?h3 (node # rev (descent cmp h (key (h node)) (Br l a r)))"
      by simp
    from res i frame keys parn rt ucn show ?thesis
      unfolding placed_def by (intro exI[of _ a] exI[of _ ?h3]) simp
  next
    case False
    from Br.IH(2)[OF ir dr nr Br.prems(4,5,6) hr]
    obtain r' h1 where b: "BstInsert m cmp (right (h a)) node h = Inr (r', h1)"
      and p: "placed cmp h (right (h a)) node r r' h1" by blast
    from p have r': "r' = (if right (h a) = NULL then node else right (h a))"
      and t1: "istree h1 r' (place cmp h node r)"
      and fr: "\<And>p. p \<notin> set (nodes r) \<Longrightarrow> p \<noteq> node \<Longrightarrow> h1 p = h p"
      and kc: "\<And>p. key (h1 p) = key (h p) \<and> color (h1 p) = color (h p)"
      and par: "if r = Tip then h1 = h else parent (h1 node) = last (descent cmp h (key (h node)) r)"
      and uc: "upchain h1 (node # rev (descent cmp h (key (h node)) r))"
      by (auto simp: placed_def)
    from r' Br.prems(4) have r0: "r' \<noteq> NULL" by auto
    from istree_root_mem[OF t1 r0] have rmem: "r' \<in> insert node (set (nodes r))"
      by (simp add: nodes_place)
    with ar na have ra: "r' \<noteq> a" by auto
    let ?h3 = "set_parent r' a (set_right a r' h1)"
    have res: "BstInsert n cmp rt node h = Inr (a, ?h3)"
      using n rt False b r0 Br.prems(4) by (simp add: set_right_def)
    have h1a: "h1 a = h a" using fr ar na by simp
    have i1: "istree ?h3 r' (place cmp h node r)"
      using t1 ar na ra
      by (subst istree_frame[where h = h1]) (auto simp: nodes_place set_parent_def set_right_def)
    have eq: "?h3 b = h b" if "b \<in> set (nodes l)" for b
    proof -
      from that lr nl al rmem have "b \<notin> set (nodes r)" "b \<noteq> node" "b \<noteq> a" "b \<noteq> r'"
        by auto
      then show ?thesis using fr by (simp add: set_parent_def set_right_def)
    qed
    have i2: "istree ?h3 (left (h a)) l"
      using il eq by (subst istree_frame[where h = h]) auto
    have i: "istree ?h3 a (place cmp h node (Br l a r))"
      using False rt i1 i2 ra h1a by (simp add: set_parent_def set_right_def)
    have frame: "\<forall>p. p \<notin> set (nodes (Br l a r)) \<and> p \<noteq> node \<longrightarrow> ?h3 p = h p"
      using fr rmem by (auto simp: set_parent_def set_right_def)
    have keys: "\<forall>p. key (?h3 p) = key (h p) \<and> color (?h3 p) = color (h p)"
      using kc by (auto simp: set_parent_def set_right_def)
    have parn: "parent (?h3 node) = last (descent cmp h (key (h node)) (Br l a r))"
    proof (cases "r = Tip")
      case True
      with ir have "right (h a) = NULL" by simp
      with r' have "r' = node" by simp
      with True \<open>\<not> 0 < cmp (key (h a)) (key (h node))\<close> show ?thesis
        by (simp add: set_parent_def set_right_def)
    next
      case F: False
      with ir istree_null[OF ir] have "right (h a) \<noteq> NULL" by simp
      with r' have "r' = right (h a)" by simp
      with istree_root_mem[OF ir] \<open>right (h a) \<noteq> NULL\<close> nr have "r' \<noteq> node" by auto
      with F par na \<open>\<not> 0 < cmp (key (h a)) (key (h node))\<close> descent_nonempty[OF F, of cmp h "key (h node)"]
      show ?thesis by (simp add: set_parent_def set_right_def)
    qed
    let ?u = "node # rev (descent cmp h (key (h node)) r)"
    from up_path_facts[OF ir dr nr r', of cmp "key (h node)"]
    have du: "distinct ?u" and lu: "last ?u = r'" by simp_all
    from last_notin_butlast[OF du] lu have "r' \<notin> set (butlast ?u)" by simp
    then have "\<forall>x \<in> set (butlast ?u). parent (?h3 x) = parent (h1 x)"
      by (auto simp: set_parent_def set_right_def)
    from upchain_cong[OF this] uc have "upchain ?h3 ?u" by simp
    moreover have "parent (?h3 (last ?u)) = a" unfolding lu by (simp add: set_parent_def)
    ultimately have "upchain ?h3 (?u @ [a])" unfolding upchain_snoc by simp
    moreover have "node # rev (descent cmp h (key (h node)) (Br l a r)) = ?u @ [a]"
      using \<open>\<not> 0 < cmp (key (h a)) (key (h node))\<close> by simp
    ultimately have ucn: "upchain ?h3 (node # rev (descent cmp h (key (h node)) (Br l a r)))"
      by simp
    from res i frame keys parn rt ucn show ?thesis
      unfolding placed_def by (intro exI[of _ a] exI[of _ ?h3]) simp
  qed
qed

lemma descent_sides:
  "a \<in> set (descent cmp h (key (h node)) t) \<Longrightarrow>
   (if 0 < cmp (key (h a)) (key (h node)) then left_of a node (place cmp h node t)
    else right_of a node (place cmp h node t))"
  by (induction t) (auto simp: nodes_place split: if_splits)

text \<open>
  Claim C7. Raw placement sends a strictly-less key to the left and everything else, ties
  included, to the right, links the new node at the first null position and sets its
  parent link; duplicates are permitted, and a duplicate inserted later lands in the right
  subtree of the matching node it meets. Here \<open>t\<close> is the tree in the store below \<open>rt\<close>,
  the node is initialised and not yet in the tree, and no hypothesis restricts its key.
\<close>

theorem BstInsert_placement:
  assumes "istree h rt t" and "distinct (nodes t)" and "node \<notin> set (nodes t)"
    and "node \<noteq> NULL" and "left (h node) = NULL" and "right (h node) = NULL"
    and "height t < n"
  shows "\<exists>rt' h'. BstInsert n cmp rt node h = Inr (rt', h')
           \<and> rt' = (if rt = NULL then node else rt)
           \<and> istree h' rt' (place cmp h node t)
           \<and> (\<forall>p. key (h' p) = key (h p))
           \<and> (t \<noteq> Tip \<longrightarrow> parent (h' node) = last (descent cmp h (key (h node)) t))
           \<and> (\<forall>a \<in> set (descent cmp h (key (h node)) t).
                 if 0 < cmp (key (h a)) (key (h node))
                 then left_of a node (place cmp h node t)
                 else right_of a node (place cmp h node t))
           \<and> (\<forall>a \<in> set (descent cmp h (key (h node)) t).
                 cmp (key (h a)) (key (h node)) = 0 \<longrightarrow> right_of a node (place cmp h node t))"
proof -
  from BstInsert_placed[OF assms, of cmp]
  obtain rt' h' where b: "BstInsert n cmp rt node h = Inr (rt', h')"
    and p: "placed cmp h rt node t rt' h'" by blast
  have s: "\<forall>a \<in> set (descent cmp h (key (h node)) t).
             if 0 < cmp (key (h a)) (key (h node))
             then left_of a node (place cmp h node t)
             else right_of a node (place cmp h node t)"
    using descent_sides[of _ cmp h node t] by blast
  then have d: "\<forall>a \<in> set (descent cmp h (key (h node)) t).
             cmp (key (h a)) (key (h node)) = 0 \<longrightarrow> right_of a node (place cmp h node t)"
    by (auto split: if_splits)
  from b p s d show ?thesis
    unfolding placed_def by (intro exI[of _ rt'] exI[of _ h']) auto
qed

text \<open>Witness: the root 1 carries the key 5, and the new node 2 carries the key 5 again.\<close>

theorem BstInsert_placement_witness:
  "istree (init_nodes [(1, 5), (2, 5)] blank) 1 (Br Tip 1 Tip)
   \<and> distinct (nodes (Br Tip 1 Tip)) \<and> 2 \<notin> set (nodes (Br Tip 1 Tip)) \<and> (2::ptr) \<noteq> NULL
   \<and> left (init_nodes [(1, 5), (2, 5)] blank 2) = NULL
   \<and> right (init_nodes [(1, 5), (2, 5)] blank 2) = NULL
   \<and> height (Br Tip 1 Tip) < 10
   \<and> (\<exists>h'. BstInsert 10 intcomparer 1 2 (init_nodes [(1, 5), (2, 5)] blank) = Inr (1, h')
         \<and> istree h' 1 (Br Tip 1 (Br Tip 2 Tip)) \<and> parent (h' 2) = 1)
   \<and> right_of 1 2 (Br Tip 1 (Br Tip 2 Tip))"
proof -
  let ?h = "init_nodes [(1, 5), (2, 5)] blank"
  have a: "istree ?h 1 (Br Tip 1 Tip)" by (simp add: INIT_RBNODE_def)
  have b: "distinct (nodes (Br Tip 1 Tip))" by simp
  have c: "2 \<notin> set (nodes (Br Tip 1 Tip))" by simp
  have d: "(2::ptr) \<noteq> NULL" by simp
  have e: "left (?h 2) = NULL" by (simp add: INIT_RBNODE_def)
  have f: "right (?h 2) = NULL" by (simp add: INIT_RBNODE_def)
  have g: "height (Br Tip 1 Tip) < 10" by simp
  have pl: "place intcomparer ?h 2 (Br Tip 1 Tip) = Br Tip 1 (Br Tip 2 Tip)"
    by (simp add: INIT_RBNODE_def intcomparer_def)
  have ds: "descent intcomparer ?h (key (?h 2)) (Br Tip 1 Tip) = [1]"
    by (simp add: INIT_RBNODE_def intcomparer_def)
  from BstInsert_placement[OF a b c d e f g, of intcomparer]
  obtain rt' h' where r: "BstInsert 10 intcomparer 1 2 ?h = Inr (rt', h')"
    "rt' = (if (1::ptr) = NULL then 2 else 1)"
    "istree h' rt' (place intcomparer ?h 2 (Br Tip 1 Tip))"
    "Br Tip 1 Tip \<noteq> Tip \<longrightarrow>
       parent (h' 2) = last (descent intcomparer ?h (key (?h 2)) (Br Tip 1 Tip))"
    by blast
  from r(2) have "rt' = 1" by simp
  with r(1,3,4) have "\<exists>h'. BstInsert 10 intcomparer 1 2 ?h = Inr (1, h')
         \<and> istree h' 1 (Br Tip 1 (Br Tip 2 Tip)) \<and> parent (h' 2) = 1"
    unfolding pl ds by auto
  moreover have "right_of 1 2 (Br Tip 1 (Br Tip 2 Tip))" by simp
  ultimately show ?thesis using a b c d e f g by blast
qed

section \<open>Search\<close>

lemma BstSearch_istree:
  "istree h rt t \<Longrightarrow> height t < n \<Longrightarrow>
   BstSearch n cmp rt k h = Inr (first_equal cmp h k (descent cmp h k t))"
proof (induction t arbitrary: rt n)
  case Tip
  then show ?case by (cases n) (simp_all add: first_equal_def)
next
  case (Br l a r)
  then obtain m where n: "n = Suc m" by (cases n) auto
  from Br.prems n have hl: "height l < m" and hr: "height r < m" by auto
  from Br.prems have rt: "rt = a" "a \<noteq> NULL" and il: "istree h (left (h a)) l"
    and ir: "istree h (right (h a)) r" by auto
  show ?case
    using Br.IH(1)[OF il hl] Br.IH(2)[OF ir hr] rt n
    by (simp add: first_equal_def Let_def)
qed

text \<open>
  Claim C6. Search descends comparing the key at each node and returns the first node of
  the descent whose key compares equal, or \<open>NULL\<close> when a null link is reached; on an
  empty tree it returns \<open>NULL\<close> without a fault. Here \<open>t\<close> is the tree in the store below
  the root, and the fuel exceeds its height.
\<close>

theorem searchKey_descent:
  assumes "istree h (root tree) t" and "height t < n"
  shows "searchKey n tree k h
           = Inr (first_equal (comparer tree) h k (descent (comparer tree) h k t))
         \<and> searchKey n (INIT_RBTREE tree cmp) k h = Inr NULL
         \<and> searchKey n (tree\<lparr>root := NULL\<rparr>) k h = Inr NULL"
proof -
  from assms(2) obtain m where "n = Suc m" by (cases n) auto
  then show ?thesis
    using BstSearch_istree[OF assms] by (simp add: searchKey_def INIT_RBTREE_def)
qed

text \<open>Witness: the tree of \<open>test_int_insertion\<close>, searched for the keys 7 and 99.\<close>

theorem searchKey_descent_witness:
  "istree (snd (after_calls 10 [Ins 7, Ins 6, Ins 5, Ins 4] (INIT_RBTREE blank_tree intcomparer)
                 (init_nodes [(7, 7), (6, 6), (5, 5), (4, 4)] blank)))
          (root (fst (after_calls 10 [Ins 7, Ins 6, Ins 5, Ins 4]
                 (INIT_RBTREE blank_tree intcomparer)
                 (init_nodes [(7, 7), (6, 6), (5, 5), (4, 4)] blank))))
          (Br (Br (Br Tip 4 Tip) 5 Tip) 6 (Br Tip 7 Tip))
   \<and> height (Br (Br (Br Tip 4 Tip) 5 Tip) 6 (Br Tip 7 Tip)) < 10
   \<and> searchKey 10 (fst (after_calls 10 [Ins 7, Ins 6, Ins 5, Ins 4]
                 (INIT_RBTREE blank_tree intcomparer)
                 (init_nodes [(7, 7), (6, 6), (5, 5), (4, 4)] blank))) 7
          (snd (after_calls 10 [Ins 7, Ins 6, Ins 5, Ins 4] (INIT_RBTREE blank_tree intcomparer)
                 (init_nodes [(7, 7), (6, 6), (5, 5), (4, 4)] blank))) = Inr 7
   \<and> searchKey 10 (fst (after_calls 10 [Ins 7, Ins 6, Ins 5, Ins 4]
                 (INIT_RBTREE blank_tree intcomparer)
                 (init_nodes [(7, 7), (6, 6), (5, 5), (4, 4)] blank))) 99
          (snd (after_calls 10 [Ins 7, Ins 6, Ins 5, Ins 4] (INIT_RBTREE blank_tree intcomparer)
                 (init_nodes [(7, 7), (6, 6), (5, 5), (4, 4)] blank))) = Inr NULL"
proof -
  let ?s = "after_calls 10 [Ins 7, Ins 6, Ins 5, Ins 4] (INIT_RBTREE blank_tree intcomparer)
              (init_nodes [(7, 7), (6, 6), (5, 5), (4, 4)] blank)"
  let ?t = "Br (Br (Br Tip 4 Tip) 5 Tip) 6 (Br Tip 7 Tip)"
  have a: "istree (snd ?s) (root (fst ?s)) ?t" by code_simp
  have b: "height ?t < 10" by simp
  have c: "first_equal (comparer (fst ?s)) (snd ?s) 7 (descent (comparer (fst ?s)) (snd ?s) 7 ?t) = 7"
    by code_simp
  have d: "first_equal (comparer (fst ?s)) (snd ?s) 99 (descent (comparer (fst ?s)) (snd ?s) 99 ?t) = NULL"
    by code_simp
  from searchKey_descent[OF a b, of 7] searchKey_descent[OF a b, of 99] a b c d
  show ?thesis by simp
qed

section \<open>Rotation and the insertion fixup\<close>

text \<open>
  In the concrete scenarios below the node stored at address \<open>k\<close> carries the key \<open>k\<close>,
  and the tree is initialised by \<open>INIT_RBTREE\<close> with \<open>intcomparer\<close>, as
  \<open>test_int_insertion\<close> does.
\<close>

text \<open>
  Claim C2. After a rotation the pivot takes the former parent slot of \<open>node\<close> and every
  reparented node, \<open>node\<close> included, has its parent link set to its new parent.
  \<open>ROTATE_TREE\<close> has no assignment to \<open>node->parent\<close>. Input: the two-node tree with
  root 1 and right child 2, rotated left at 1. The pivot 2 becomes the root, 1 becomes its
  left child, and the parent link of 1 is still \<open>NULL\<close> instead of 2.
\<close>

theorem ROTATE_TREE_node_parent_stale:
  "case ROTATE_TREE dir_left dir_right 1 1
          (set_right 1 2 (set_parent 2 1 (init_nodes [(1, 1), (2, 2)] blank))) of
     Inl e \<Rightarrow> False
   | Inr (rt, h) \<Rightarrow>
       rt = 2 \<and> parent (h 2) = NULL \<and> left (h 2) = 1 \<and> right (h 1) = NULL
       \<and> parent (h 1) = NULL \<and> parent (h 1) \<noteq> 2"
  by code_simp

text \<open>
  Claim C1. Every finite sequence of \<open>insertRbNode\<close> calls on an empty tree leaves a tree
  that satisfies the five invariants. Input: insert 3, 1, 2. The new node 2 is the right
  child of the left child 1 of the root 3. After the rotation at 1 the statement
  \<open>parent = parent->parent\<close> reads the stale link of 1 and yields 3, the grandparent, so
  \<open>SWAP_COLOR\<close> swaps 3 with itself. The result has the BLACK root 2, the RED left child 1
  and the BLACK right child 3: the paths through 1 hold one BLACK node, the paths through 3
  hold two.
\<close>

theorem insertRbNode_3_1_2_black_height:
  "case run_calls 10 [Ins 3, Ins 1, Ins 2] (INIT_RBTREE blank_tree intcomparer)
          (init_nodes [(3, 3), (1, 1), (2, 2)] blank) of
     Inl e \<Rightarrow> False
   | Inr (t, h) \<Rightarrow>
       tree_of 10 (root t) h = Some (Br (Br Tip 1 Tip) 2 (Br Tip 3 Tip))
       \<and> map (\<lambda>p. color (h p)) [1, 2, 3]
           = [NODE_COLOR_RED, NODE_COLOR_BLACK, NODE_COLOR_BLACK]
       \<and> black_counts h (Br (Br Tip 1 Tip) 2 (Br Tip 3 Tip)) = [1, 1, 2, 2]
       \<and> \<not> inv_black_height h (Br (Br Tip 1 Tip) 2 (Br Tip 3 Tip))"
  by code_simp

section \<open>Deletion\<close>

text \<open>
  Claim C3. After \<open>deleteRbNode\<close> every root-to-null path holds the same number of BLACK
  nodes. \<open>deleteRbNode\<close> only calls \<open>BstDelete\<close>; the steps 2 and 3 of the algorithm in
  the comment above \<open>BstDelete\<close> are not there. Input: insert 7, 6, 5, 4, which gives a tree
  with the five invariants (root 6, BLACK children 5 and 7, RED 4 below 5), then delete the
  BLACK node 5. Its RED child 4 takes its place and stays RED.
\<close>

theorem deleteRbNode_black_height_broken:
  "(case run_calls 10 [Ins 7, Ins 6, Ins 5, Ins 4] (INIT_RBTREE blank_tree intcomparer)
          (init_nodes [(7, 7), (6, 6), (5, 5), (4, 4)] blank) of
      Inl e \<Rightarrow> False
    | Inr (t, h) \<Rightarrow>
        tree_of 10 (root t) h = Some (Br (Br (Br Tip 4 Tip) 5 Tip) 6 (Br Tip 7 Tip))
        \<and> rb_invariants intcomparer h (Br (Br (Br Tip 4 Tip) 5 Tip) 6 (Br Tip 7 Tip))
        \<and> color (h 5) = NODE_COLOR_BLACK)
   \<and> (case run_calls 10 [Ins 7, Ins 6, Ins 5, Ins 4, Del 5] (INIT_RBTREE blank_tree intcomparer)
          (init_nodes [(7, 7), (6, 6), (5, 5), (4, 4)] blank) of
      Inl e \<Rightarrow> False
    | Inr (t, h) \<Rightarrow>
        tree_of 10 (root t) h = Some (Br (Br Tip 4 Tip) 6 (Br Tip 7 Tip))
        \<and> map (\<lambda>p. color (h p)) [4, 6, 7]
            = [NODE_COLOR_RED, NODE_COLOR_BLACK, NODE_COLOR_BLACK]
        \<and> black_counts h (Br (Br Tip 4 Tip) 6 (Br Tip 7 Tip)) = [1, 1, 2, 2]
        \<and> \<not> inv_black_height h (Br (Br Tip 4 Tip) 6 (Br Tip 7 Tip)))"
  by code_simp

text \<open>
  The leaf case of \<open>BstDelete\<close> has no \<open>return\<close> after it has unlinked the leaf, so control
  falls into the one-child case, which finds the leaf in neither slot of its parent,
  stores \<open>NULL\<close> in the parent's right slot and then writes through that \<open>NULL\<close>.
  Example: in the tree built from 7, 6, 5 the root is 6 with the RED leaves 5 and 7.
\<close>

lemma deleteRbNode_leaf_5_faults:
  "case run_calls 10 [Ins 7, Ins 6, Ins 5, Del 5] (INIT_RBTREE blank_tree intcomparer)
          (init_nodes [(7, 7), (6, 6), (5, 5)] blank) of
     Inl e \<Rightarrow> e = NullDeref
   | Inr (t, h) \<Rightarrow> False"
  by code_simp

text \<open>
  Claim C5. For a member node with zero children the splice unlinks it from its parent
  and leaves the rest of the tree intact. On the code, \<open>BstDelete\<close> of any leaf that has a
  parent dereferences \<open>NULL\<close>.
\<close>

theorem BstDelete_leaf_with_parent_faults:
  assumes "node \<noteq> NULL" and "left (h node) = NULL" and "right (h node) = NULL"
    and "parent (h node) \<noteq> NULL"
  shows "BstDelete n rt node h = Inl NullDeref"
  using assms
  by (auto simp: BstDelete_def BstDelete_cases_def Let_def set_left_def set_right_def)

theorem BstDelete_leaf_with_parent_faults_witness:
  "(5::ptr) \<noteq> NULL
   \<and> left ((set_left 6 5 (set_parent 5 6 (init_nodes [(6, 6), (5, 5)] blank))) 5) = NULL
   \<and> right ((set_left 6 5 (set_parent 5 6 (init_nodes [(6, 6), (5, 5)] blank))) 5) = NULL
   \<and> parent ((set_left 6 5 (set_parent 5 6 (init_nodes [(6, 6), (5, 5)] blank))) 5) \<noteq> NULL
   \<and> BstDelete 10 6 5 (set_left 6 5 (set_parent 5 6 (init_nodes [(6, 6), (5, 5)] blank)))
       = Inl NullDeref"
proof -
  let ?h = "set_left 6 5 (set_parent 5 6 (init_nodes [(6, 6), (5, 5)] blank))"
  have a: "(5::ptr) \<noteq> NULL" by simp
  have b: "left (?h 5) = NULL"
    by (simp add: set_left_def set_parent_def INIT_RBNODE_def blank_def)
  have c: "right (?h 5) = NULL"
    by (simp add: set_left_def set_parent_def INIT_RBNODE_def blank_def)
  have d: "parent (?h 5) \<noteq> NULL"
    by (simp add: set_left_def set_parent_def INIT_RBNODE_def blank_def)
  from BstDelete_leaf_with_parent_faults [where node = 5 and h = ?h and n = 10 and rt = 6]
    a b c d
  show ?thesis by blast
qed

text \<open>
  Claim C10. \<open>deleteRbNode\<close> writes no field of the tree record: \<open>root\<close>, \<open>size\<close>,
  \<open>comparer\<close> and \<open>rb_offset\<close> are what they were, also when the deleted node was the
  root, so that \<open>root\<close> still points to the removed node.
\<close>

theorem deleteRbNode_tree_unchanged:
  assumes "deleteRbNode n rbtree node h = Inr (rbtree', h')"
  shows "root rbtree' = root rbtree \<and> size_rb rbtree' = size_rb rbtree
         \<and> comparer rbtree' = comparer rbtree \<and> rb_offset rbtree' = rb_offset rbtree
         \<and> rbtree' = rbtree
         \<and> (if root rbtree = node then root rbtree' = node else True)"
  using assms by (auto simp: deleteRbNode_def split: sum.splits)

text \<open>Witness: the one-node tree with root 1; the splice computes \<open>NULL\<close> as the new
  root, and the tree record still names 1.\<close>

theorem deleteRbNode_tree_unchanged_witness:
  "deleteRbNode 10 ((INIT_RBTREE blank_tree intcomparer)\<lparr>root := 1\<rparr>) 1
       (set_color 1 NODE_COLOR_BLACK (init_nodes [(1, 1)] blank))
     = Inr ((INIT_RBTREE blank_tree intcomparer)\<lparr>root := 1\<rparr>,
            set_color 1 NODE_COLOR_BLACK (init_nodes [(1, 1)] blank))
   \<and> BstDelete 10 1 1 (set_color 1 NODE_COLOR_BLACK (init_nodes [(1, 1)] blank))
     = Inr (NULL, set_color 1 NODE_COLOR_BLACK (init_nodes [(1, 1)] blank))
   \<and> root ((INIT_RBTREE blank_tree intcomparer)\<lparr>root := 1\<rparr>) = 1"
proof -
  let ?t = "(INIT_RBTREE blank_tree intcomparer)\<lparr>root := 1\<rparr>"
  let ?h = "set_color 1 NODE_COLOR_BLACK (init_nodes [(1, 1)] blank)"
  have b: "BstDelete 10 1 1 ?h = Inr (NULL, ?h)"
    by (simp add: BstDelete_def set_color_def INIT_RBNODE_def)
  then have d: "deleteRbNode 10 ?t 1 ?h = Inr (?t, ?h)"
    by (simp add: deleteRbNode_def)
  from deleteRbNode_tree_unchanged[OF d] have "root ?t = 1" by simp
  with b d show ?thesis by blast
qed

section \<open>Traversal order\<close>

text \<open>
  Claim C8. After any sequence of inserts and deletes the in-order traversal visits the
  keys in non-decreasing order; in particular after inserting 7, 6, 5, 4 the root is BLACK
  and the traversal yields 4, 5, 6, 7. The scenario holds (first conjunct). Input against
  the general part: insert 3, 4, 2, 1, then delete 3 and delete 2. Deleting the root 3,
  which has two children, makes its successor 4 (its own right child) clear the left slot
  of 3 and point to itself; the tree record keeps 3 as root; deleting 2 then stores its
  child 1 in the right slot of 3. The traversal visits 3 and then 1.
\<close>

theorem inorderTraversal_after_calls:
  "(case run_calls 10 [Ins 7, Ins 6, Ins 5, Ins 4] (INIT_RBTREE blank_tree intcomparer)
          (init_nodes [(7, 7), (6, 6), (5, 5), (4, 4)] blank) of
      Inl e \<Rightarrow> False
    | Inr (t, h) \<Rightarrow>
        color (h (root t)) = NODE_COLOR_BLACK \<and> inorderTraversal 10 t h = Inr [4, 5, 6, 7])
   \<and> (case run_calls 10 [Ins 3, Ins 4, Ins 2, Ins 1, Del 3, Del 2]
          (INIT_RBTREE blank_tree intcomparer)
          (init_nodes [(3, 3), (4, 4), (2, 2), (1, 1)] blank) of
      Inl e \<Rightarrow> False
    | Inr (t, h) \<Rightarrow> inorderTraversal 10 t h = Inr [3, 1])"
  by code_simp

section \<open>The intrusive variant\<close>

text \<open>
  Claim C9. Scenario 4 (\<open>test_bar_insertion\<close>): three caller records at addresses \<open>e1\<close>,
  \<open>e2\<close>, \<open>e3\<close> embed their nodes at offset \<open>off\<close> and carry the keys 1, 2, 3. After the
  three insertions the intrusive search for key 1 returns \<open>e1\<close> itself, and the search for
  the absent key 4 returns \<open>NULL\<close>. The three nodes are distinct objects at non-null
  addresses.
\<close>

theorem RBTREE_SEARCH_scenario:
  assumes "distinct [e1 + off, e2 + off, e3 + off]"
    and "e1 + off \<noteq> NULL" and "e2 + off \<noteq> NULL" and "e3 + off \<noteq> NULL"
  shows "case run_calls 10 [Ins (e1 + off), Ins (e2 + off), Ins (e3 + off)]
                (INIT_RBTREE_TYPE tr foocomparer off)
                (INIT_RBNODE_TYPE e3 off 3
                  (INIT_RBNODE_TYPE e2 off 2 (INIT_RBNODE_TYPE e1 off 1 h))) of
           Inl e \<Rightarrow> False
         | Inr (t, h') \<Rightarrow>
             RBTREE_SEARCH 10 t 1 h' = Inr e1 \<and> RBTREE_SEARCH 10 t 4 h' = Inr NULL"
  using assms
  by (simp add: numeral_eq_Suc insertRbNode_def INIT_RBTREE_TYPE_def INIT_RBNODE_TYPE_def
      INIT_RBNODE_def foocomparer_def ROTATE_TREE_def SWAP_COLOR_def set_color_def
      set_left_def set_right_def set_parent_def child_def set_child_def RBTREE_SEARCH_def
      Let_def) auto

theorem RBTREE_SEARCH_scenario_witness:
  "distinct [(4096::ptr) + 8, 4160 + 8, 4224 + 8]
   \<and> (4096::ptr) + 8 \<noteq> NULL \<and> (4160::ptr) + 8 \<noteq> NULL \<and> (4224::ptr) + 8 \<noteq> NULL
   \<and> (case run_calls 10 [Ins (4096 + 8), Ins (4160 + 8), Ins (4224 + 8)]
                (INIT_RBTREE_TYPE blank_tree foocomparer 8)
                (INIT_RBNODE_TYPE 4224 8 3
                  (INIT_RBNODE_TYPE 4160 8 2 (INIT_RBNODE_TYPE 4096 8 1 blank))) of
           Inl e \<Rightarrow> False
         | Inr (t, h') \<Rightarrow>
             RBTREE_SEARCH 10 t 1 h' = Inr 4096 \<and> RBTREE_SEARCH 10 t 4 h' = Inr NULL)"
proof -
  have a: "distinct [(4096::ptr) + 8, 4160 + 8, 4224 + 8]" by simp
  have b: "(4096::ptr) + 8 \<noteq> NULL" by simp
  have c: "(4160::ptr) + 8 \<noteq> NULL" by simp
  have d: "(4224::ptr) + 8 \<noteq> NULL" by simp
  from RBTREE_SEARCH_scenario [OF a b c d, of blank_tree blank] a b c d
  show ?thesis by blast
qed

section \<open>The insertion loop returns\<close>

text \<open>
  On the path from the new node up to the root, \<open>BstInsert\<close> has set every parent link,
  and the loop of \<open>insertRbNode\<close> only walks that path: recolouring moves two nodes up,
  and after a rotation the current node is BLACK, so the loop ends. The lemmas below show
  that the loop returns without a fault on a tree that satisfies invariants 1 to 3.
\<close>

lemma istree_children:
  "istree g p t \<Longrightarrow> x \<in> set (nodes t) \<Longrightarrow>
   left (g x) \<in> insert NULL (set (nodes t)) \<and> right (g x) \<in> insert NULL (set (nodes t))"
proof (induction t arbitrary: p)
  case Tip
  then show ?case by simp
next
  case (Br l a r)
  from Br.prems(1) have il: "istree g (left (g a)) l" and ir: "istree g (right (g a)) r"
    by auto
  from istree_root_mem[OF il] istree_root_mem[OF ir]
  have ra: "left (g a) \<in> insert NULL (set (nodes l))" "right (g a) \<in> insert NULL (set (nodes r))"
    by auto
  from Br.prems(2) consider "x = a" | "x \<in> set (nodes l)" | "x \<in> set (nodes r)" by auto
  then show ?case
  proof cases
    case 1
    with ra show ?thesis by auto
  next
    case 2
    from Br.IH(1)[OF il 2] show ?thesis by auto
  next
    case 3
    from Br.IH(2)[OF ir 3] show ?thesis by auto
  qed
qed

lemma upstruct_snoc:
  "upstruct g (u @ [a]) =
     (upstruct g u \<and> a \<noteq> NULL \<and> a \<notin> set u
      \<and> (\<forall>x \<in> set u. left (g x) \<noteq> a \<and> right (g x) \<noteq> a)
      \<and> (u \<noteq> [] \<longrightarrow> last u = left (g a) \<or> last u = right (g a)))"
proof (induction u)
  case Nil
  show ?case by simp
next
  case (Cons x ys)
  show ?case
  proof (cases ys)
    case Nil
    then show ?thesis by (simp; blast)
  next
    case (Cons y zs)
    with Cons.IH show ?thesis by (simp; blast)
  qed
qed

lemma upstruct_nonnull: "upstruct g u \<Longrightarrow> x \<in> set u \<Longrightarrow> x \<noteq> NULL"
  by (induction u) auto

lemma upstruct_cong:
  "\<forall>a. left (g' a) = left (g a) \<and> right (g' a) = right (g a) \<Longrightarrow>
   upstruct g' u = upstruct g u"
proof (induction u)
  case Nil
  show ?case by simp
next
  case (Cons x ys)
  then show ?case by (cases ys) simp_all
qed

lemma upstruct_descent:
  "istree g p t \<Longrightarrow> distinct (nodes t) \<Longrightarrow> upstruct g (rev (descent cmp h k t))"
proof (induction t arbitrary: p)
  case Tip
  then show ?case by simp
next
  case (Br l a r)
  from Br.prems have a0: "a \<noteq> NULL" and il: "istree g (left (g a)) l"
    and ir: "istree g (right (g a)) r" and dl: "distinct (nodes l)" and dr: "distinct (nodes r)"
    and al: "a \<notin> set (nodes l)" and ar: "a \<notin> set (nodes r)" by auto
  have side: "upstruct g (rev (descent cmp h k s) @ [a])"
    if ist: "istree g q s" and ds: "distinct (nodes s)" and as: "a \<notin> set (nodes s)"
      and q: "q = left (g a) \<or> q = right (g a)"
      and ih: "upstruct g (rev (descent cmp h k s))" for s q
  proof -
    have "a \<notin> set (descent cmp h k s)" using descent_subset[of cmp h k s] as by auto
    moreover have "\<forall>x \<in> set (descent cmp h k s). left (g x) \<noteq> a \<and> right (g x) \<noteq> a"
    proof
      fix x assume "x \<in> set (descent cmp h k s)"
      with descent_subset[of cmp h k s] have "x \<in> set (nodes s)" by auto
      from istree_children[OF ist this] as a0 show "left (g x) \<noteq> a \<and> right (g x) \<noteq> a"
        by auto
    qed
    moreover have "descent cmp h k s \<noteq> [] \<longrightarrow> hd (descent cmp h k s) = q"
      using descent_hd[OF ist, of cmp h k] by (cases s) auto
    ultimately show ?thesis
      using ih a0 q unfolding upstruct_snoc by (auto simp: last_rev)
  qed
  show ?case
    using side[OF il dl al _ Br.IH(1)[OF il dl]] side[OF ir dr ar _ Br.IH(2)[OF ir dr]]
    by simp
qed

lemma upcol_snoc:
  "upcol g (u @ [a]) =
     (upcol g u \<and> (u \<noteq> [] \<longrightarrow> color (g (last u)) = NODE_COLOR_RED
                        \<longrightarrow> color (g a) = NODE_COLOR_BLACK))"
  by (induction g u rule: upcol.induct) auto

lemma upcol_cong:
  "\<forall>a \<in> set u. color (g' a) = color (g a) \<Longrightarrow> upcol g' u = upcol g u"
  by (induction g u rule: upcol.induct) auto

lemma upcol_descent:
  "inv_colors g t \<Longrightarrow> inv_no_red_red g t \<Longrightarrow> upcol g (rev (descent cmp h k t))"
proof (induction t)
  case Tip
  then show ?case by simp
next
  case (Br l a r)
  from Br.prems have cl: "inv_colors g l" and cr: "inv_colors g r"
    and ca: "color (g a) = NODE_COLOR_RED \<or> color (g a) = NODE_COLOR_BLACK"
    and rl: "inv_no_red_red g l" and rr: "inv_no_red_red g r"
    and ra: "color (g a) = NODE_COLOR_RED \<longrightarrow> \<not> is_red g l \<and> \<not> is_red g r"
    by (auto simp: inv_colors_def split: if_splits)
  have side: "upcol g (rev (descent cmp h k s) @ [a])"
    if ih: "upcol g (rev (descent cmp h k s))"
      and nr: "color (g a) = NODE_COLOR_RED \<longrightarrow> \<not> is_red g s" for s
  proof (cases s)
    case Tip
    then show ?thesis by simp
  next
    case (Br sl c sr)
    with nr ca have "color (g c) = NODE_COLOR_RED \<longrightarrow> color (g a) = NODE_COLOR_BLACK"
      by (auto simp: is_red_def)
    with ih Br show ?thesis unfolding upcol_snoc by (simp add: last_rev)
  qed
  show ?case
    using side[OF Br.IH(1)[OF cl rl]] side[OF Br.IH(2)[OF cr rr]] ra by simp
qed

lemma color_set [simp]:
  "color (set_left p v h a) = color (h a)"
  "color (set_right p v h a) = color (h a)"
  "color (set_parent p v h a) = color (h a)"
  "color (set_child d p v h a) = color (h a)"
  by (simp_all add: set_left_def set_right_def set_parent_def set_child_def split: dir.splits)

lemma links_set_color [simp]:
  "left (set_color p c h a) = left (h a)"
  "right (set_color p c h a) = right (h a)"
  "parent (set_color p c h a) = parent (h a)"
  "color (set_color p c h a) = (if a = p then c else color (h a))"
  by (simp_all add: set_color_def)

lemma ROTATE_TREE_Inr:
  assumes "node \<noteq> NULL" and "child revd (h node) \<noteq> NULL"
  shows "\<exists>rt' h'. ROTATE_TREE d revd node rt h = Inr (rt', h')
           \<and> (rt' = rt \<or> rt' = child revd (h node))"
  using assms by (simp add: ROTATE_TREE_def Let_def)

lemma ROTATE_TREE_color:
  "ROTATE_TREE d revd node rt h = Inr (rt', h') \<Longrightarrow> color (h' a) = color (h a)"
  by (auto simp: ROTATE_TREE_def Let_def split: if_splits)

lemma ROTATE_TREE_parent_node:
  assumes "ROTATE_TREE d revd node rt h = Inr (rt', h')"
    and "child revd (h node) \<noteq> node" and "child d (h (child revd (h node))) \<noteq> node"
  shows "parent (h' node) = parent (h node)"
  using assms
  by (cases d; cases revd)
     (auto simp: ROTATE_TREE_def Let_def child_def set_child_def set_left_def set_right_def
        set_parent_def split: if_splits)

lemma ROTATE_TREE_child_nonnull:
  assumes "ROTATE_TREE d revd node rt h = Inr (rt', h')" and "d \<noteq> revd"
    and "child d (h a) \<noteq> NULL"
  shows "child d (h' a) \<noteq> NULL"
  using assms
  by (cases d; cases revd)
     (auto simp: ROTATE_TREE_def Let_def child_def set_child_def set_left_def set_right_def
        set_parent_def split: if_splits)

lemma insert_while_stop:
  "x = rt \<or> (x \<noteq> NULL \<and> color (g x) = NODE_COLOR_BLACK) \<Longrightarrow>
   insert_while (Suc m) rt x g = Inr (rt, g)"
  by auto

lemma upcol_tl: "upcol g (y # ys) \<Longrightarrow> upcol g ys"
  by (cases ys) auto

lemma color_SWAP_COLOR: "color (SWAP_COLOR a b h b) = color (h a)"
  by (simp add: SWAP_COLOR_def Let_def)

lemma insert_while_returns:
  assumes "upstruct g (x # ys)" and "upchain g (x # ys)" and "upcol g ys"
    and "last (x # ys) = rt" and "ys \<noteq> [] \<longrightarrow> color (g rt) = NODE_COLOR_BLACK"
    and "length (x # ys) \<le> n"
  shows "\<exists>rt' g'. insert_while n rt x g = Inr (rt', g') \<and> rt' \<noteq> NULL"
  using assms
proof (induction n arbitrary: x ys g)
  case 0
  then show ?case by simp
next
  case (Suc m)
  note st = Suc.prems(1) and ch = Suc.prems(2) and co = Suc.prems(3) and la = Suc.prems(4)
    and rb = Suc.prems(5) and le = Suc.prems(6)
  from st have x0: "x \<noteq> NULL" by simp
  have "rt \<in> set (x # ys)" using la last_in_set[of "x # ys"] by simp
  from upstruct_nonnull[OF st this] have rt0: "rt \<noteq> NULL" .
  show ?case
  proof (cases "x = rt \<or> color (g x) = NODE_COLOR_BLACK")
    case True
    with x0 have "insert_while (Suc m) rt x g = Inr (rt, g)" by (intro insert_while_stop) auto
    with rt0 show ?thesis by simp
  next
    case False
    then have xr: "x \<noteq> rt" and xc: "color (g x) \<noteq> NODE_COLOR_BLACK" by auto
    from xr la obtain p zs where ys: "ys = p # zs" by (cases ys) auto
    from st ch ys have p0: "p \<noteq> NULL" and px: "parent (g x) = p" and xp: "x \<noteq> p"
      and lxp: "left (g x) \<noteq> p" "right (g x) \<noteq> p"
      and xchild: "x = left (g p) \<or> x = right (g p)"
      and stp: "upstruct g (p # zs)" and chp: "upchain g (p # zs)" by auto
    show ?thesis
    proof (cases "color (g p) = NODE_COLOR_RED")
      case False
      with xr x0 xc px p0 have "insert_while (Suc m) rt x g = Inr (rt, g)" by simp
      with rt0 show ?thesis by simp
    next
      case pr: True
      have "zs \<noteq> []"
      proof
        assume "zs = []"
        with ys la rb pr show False by simp
      qed
      then obtain gp ws where zs: "zs = gp # ws" by (cases zs) auto
      from stp chp zs have gp0: "gp \<noteq> NULL" and pgp: "parent (g p) = gp" and pneq: "p \<noteq> gp"
        and pchild: "p = left (g gp) \<or> p = right (g gp)"
        and stg: "upstruct g (gp # ws)" and chg: "upchain g (gp # ws)"
        and pws: "p \<notin> set ws" and gws: "gp \<notin> set ws"
        and cws: "left (g gp) \<notin> set ws" "right (g gp) \<notin> set ws" by auto
      from co ys zs pr have gpb: "color (g gp) = NODE_COLOR_BLACK" by simp
      from co ys zs have cog: "upcol g ws" using upcol_tl[of g p "gp # ws"] upcol_tl[of g gp ws]
        by simp
      from le ys zs obtain m' where m: "m = Suc m'" by (cases m) auto
      have recolor: "\<exists>rt' g'. insert_while m rt gp
                (set_color p NODE_COLOR_BLACK
                  (set_color u NODE_COLOR_BLACK (set_color gp NODE_COLOR_RED g))) = Inr (rt', g')
              \<and> rt' \<noteq> NULL" if uws: "u \<notin> set ws" for u
      proof -
        let ?g' = "set_color p NODE_COLOR_BLACK
                    (set_color u NODE_COLOR_BLACK (set_color gp NODE_COLOR_RED g))"
        have st': "upstruct ?g' (gp # ws)" using stg by (subst upstruct_cong[where g = g]) simp_all
        have ch': "upchain ?g' (gp # ws)" using chg by (subst upchain_cong[where g = g]) simp_all
        have co': "upcol ?g' ws" using cog pws gws uws
          by (subst upcol_cong[where g = g]) auto
        have la': "last (gp # ws) = rt" using la ys zs by simp
        have rb': "ws \<noteq> [] \<longrightarrow> color (?g' rt) = NODE_COLOR_BLACK"
        proof
          assume w: "ws \<noteq> []"
          with la' have "rt \<in> set ws" using last_in_set[of ws] by simp
          with pws gws uws have "rt \<noteq> p" "rt \<noteq> gp" "rt \<noteq> u" by auto
          moreover from rb ys have "color (g rt) = NODE_COLOR_BLACK" by simp
          ultimately show "color (?g' rt) = NODE_COLOR_BLACK" by simp
        qed
        have le': "length (gp # ws) \<le> m" using le ys zs by simp
        from Suc.IH[OF st' ch' co' la' rb' le'] show ?thesis .
      qed
      show ?thesis
      proof -
        show ?thesis
        proof (cases "p = left (g gp)")
          case True
          then have lgp: "left (g gp) = p" by simp
          show ?thesis
          proof (cases "right (g gp) \<noteq> NULL \<and> color (g (right (g gp))) = NODE_COLOR_RED")
            case True
            have "insert_while (Suc m) rt x g = insert_while m rt gp
                    (set_color p NODE_COLOR_BLACK
                      (set_color (right (g gp)) NODE_COLOR_BLACK (set_color gp NODE_COLOR_RED g)))"
              using xr x0 xc px p0 pr pgp gp0 lgp True by (simp add: Let_def)
            with recolor[OF cws(2)] show ?thesis by simp
          next
            case nu': False
          show ?thesis
          proof (cases "x = right (g p)")
            case True
            then have rp: "right (g p) = x" by simp
            from ROTATE_TREE_Inr[of p dir_right g dir_left rt] p0 rp x0
            obtain rt1 g1 where r1: "ROTATE_TREE dir_left dir_right p rt g = Inr (rt1, g1)"
              and rt1: "rt1 = rt \<or> rt1 = x" by (auto simp: child_def)
            from ROTATE_TREE_parent_node[OF r1] rp xp lxp pgp
            have p1: "parent (g1 p) = gp" by (simp add: child_def)
            from ROTATE_TREE_child_nonnull[OF r1, of gp] lgp p0
            have "left (g1 gp) \<noteq> NULL" by (simp add: child_def)
            with ROTATE_TREE_Inr[of gp dir_left g1 dir_right rt1] gp0
            obtain rt2 g2 where r2: "ROTATE_TREE dir_right dir_left gp rt1 g1 = Inr (rt2, g2)"
              and rt2: "rt2 = rt1 \<or> rt2 = left (g1 gp)" by (auto simp: child_def)
            have step: "insert_while (Suc m) rt x g
                          = insert_while m rt2 gp (SWAP_COLOR gp gp g2)"
              using xr x0 xc px p0 pr pgp gp0 nu' lgp rp r1 r2 p1 by (auto simp: Let_def)
            have "color (SWAP_COLOR gp gp g2 gp) = NODE_COLOR_BLACK"
              using ROTATE_TREE_color[OF r1, of gp] ROTATE_TREE_color[OF r2, of gp] gpb
              by (simp add: color_SWAP_COLOR)
            with gp0 have "insert_while m rt2 gp (SWAP_COLOR gp gp g2)
                               = Inr (rt2, SWAP_COLOR gp gp g2)"
              unfolding m by (intro insert_while_stop) simp
            moreover have "rt2 \<noteq> NULL" using rt2 rt1 rt0 x0 \<open>left (g1 gp) \<noteq> NULL\<close> by auto
            ultimately show ?thesis using step by simp
          next
            case False
            from ROTATE_TREE_Inr[of gp dir_left g dir_right rt] gp0 lgp p0
            obtain rt2 g2 where r2: "ROTATE_TREE dir_right dir_left gp rt g = Inr (rt2, g2)"
              and rt2: "rt2 = rt \<or> rt2 = p" by (auto simp: child_def)
            have step: "insert_while (Suc m) rt x g
                          = insert_while m rt2 p (SWAP_COLOR gp p g2)"
              using xr x0 xc px p0 pr pgp gp0 nu' lgp False r2 by (auto simp: Let_def)
            have "color (SWAP_COLOR gp p g2 p) = NODE_COLOR_BLACK"
              using ROTATE_TREE_color[OF r2, of gp] gpb by (simp add: color_SWAP_COLOR)
            with p0 have "insert_while m rt2 p (SWAP_COLOR gp p g2)
                               = Inr (rt2, SWAP_COLOR gp p g2)"
              unfolding m by (intro insert_while_stop) simp
            moreover have "rt2 \<noteq> NULL" using rt2 rt0 p0 by auto
            ultimately show ?thesis using step by simp
          qed
          qed
        next
          case False
          with pchild have rgp: "right (g gp) = p" by simp
          note plg = False
          show ?thesis
          proof (cases "left (g gp) \<noteq> NULL \<and> color (g (left (g gp))) = NODE_COLOR_RED")
            case True
            have "insert_while (Suc m) rt x g = insert_while m rt gp
                    (set_color p NODE_COLOR_BLACK
                      (set_color (left (g gp)) NODE_COLOR_BLACK (set_color gp NODE_COLOR_RED g)))"
              using xr x0 xc px p0 pr pgp gp0 plg True by (simp add: Let_def)
            with recolor[OF cws(1)] show ?thesis by simp
          next
            case nu': False
          show ?thesis
          proof (cases "x = left (g p)")
            case True
            then have lp: "left (g p) = x" by simp
            from ROTATE_TREE_Inr[of p dir_left g dir_right rt] p0 lp x0
            obtain rt1 g1 where r1: "ROTATE_TREE dir_right dir_left p rt g = Inr (rt1, g1)"
              and rt1: "rt1 = rt \<or> rt1 = x" by (auto simp: child_def)
            from ROTATE_TREE_parent_node[OF r1] lp xp lxp pgp
            have p1: "parent (g1 p) = gp" by (simp add: child_def)
            from ROTATE_TREE_child_nonnull[OF r1, of gp] rgp p0
            have "right (g1 gp) \<noteq> NULL" by (simp add: child_def)
            with ROTATE_TREE_Inr[of gp dir_right g1 dir_left rt1] gp0
            obtain rt2 g2 where r2: "ROTATE_TREE dir_left dir_right gp rt1 g1 = Inr (rt2, g2)"
              and rt2: "rt2 = rt1 \<or> rt2 = right (g1 gp)" by (auto simp: child_def)
            have step: "insert_while (Suc m) rt x g
                          = insert_while m rt2 gp (SWAP_COLOR gp gp g2)"
              using xr x0 xc px p0 pr pgp gp0 nu' plg lp r1 r2 p1 by (auto simp: Let_def)
            have "color (SWAP_COLOR gp gp g2 gp) = NODE_COLOR_BLACK"
              using ROTATE_TREE_color[OF r1, of gp] ROTATE_TREE_color[OF r2, of gp] gpb
              by (simp add: color_SWAP_COLOR)
            with gp0 have "insert_while m rt2 gp (SWAP_COLOR gp gp g2)
                               = Inr (rt2, SWAP_COLOR gp gp g2)"
              unfolding m by (intro insert_while_stop) simp
            moreover have "rt2 \<noteq> NULL" using rt2 rt1 rt0 x0 \<open>right (g1 gp) \<noteq> NULL\<close> by auto
            ultimately show ?thesis using step by simp
          next
            case False
            from ROTATE_TREE_Inr[of gp dir_right g dir_left rt] gp0 rgp p0
            obtain rt2 g2 where r2: "ROTATE_TREE dir_left dir_right gp rt g = Inr (rt2, g2)"
              and rt2: "rt2 = rt \<or> rt2 = p" by (auto simp: child_def)
            have step: "insert_while (Suc m) rt x g
                          = insert_while m rt2 p (SWAP_COLOR gp p g2)"
              using xr x0 xc px p0 pr pgp gp0 nu' plg False r2 by (auto simp: Let_def)
            have "color (SWAP_COLOR gp p g2 p) = NODE_COLOR_BLACK"
              using ROTATE_TREE_color[OF r2, of gp] gpb by (simp add: color_SWAP_COLOR)
            with p0 have "insert_while m rt2 p (SWAP_COLOR gp p g2)
                               = Inr (rt2, SWAP_COLOR gp p g2)"
              unfolding m by (intro insert_while_stop) simp
            moreover have "rt2 \<noteq> NULL" using rt2 rt0 p0 by auto
            ultimately show ?thesis using step by simp
          qed
          qed
        qed
      qed
    qed
  qed
qed

lemma descent_place:
  "descent cmp h (key (h node)) (place cmp h node t) = descent cmp h (key (h node)) t @ [node]"
  by (induction t) auto

lemma distinct_place:
  "distinct (nodes t) \<Longrightarrow> node \<notin> set (nodes t) \<Longrightarrow> distinct (nodes (place cmp h node t))"
  by (induction t) (auto simp: nodes_place)

lemma insertRbNode_returns:
  assumes "istree h (root tree) t" and "distinct (nodes t)"
    and "inv_colors h t" and "inv_root_black h t" and "inv_no_red_red h t"
    and "node \<notin> set (nodes t)" and "node \<noteq> NULL"
    and "left (h node) = NULL" and "right (h node) = NULL" and "height t < n"
  shows "\<exists>tree' h'. insertRbNode n tree node h = Inr (0, tree', h')
           \<and> size_rb tree' = size_rb tree"
proof -
  let ?cmp = "comparer tree"
  let ?k = "key (h node)"
  let ?P = "descent ?cmp h ?k t"
  from BstInsert_placed[OF assms(1,2,6,7,8,9,10), of ?cmp]
  obtain rt1 h1 where b: "BstInsert n ?cmp (root tree) node h = Inr (rt1, h1)"
    and p: "placed ?cmp h (root tree) node t rt1 h1" by blast
  from p have rt1: "rt1 = (if root tree = NULL then node else root tree)"
    and it: "istree h1 rt1 (place ?cmp h node t)"
    and kc: "\<And>q. color (h1 q) = color (h q)"
    and uc: "upchain h1 (node # rev ?P)"
    by (auto simp: placed_def)
  from upstruct_descent[OF it distinct_place[OF assms(2,6)], of ?cmp h ?k]
  have us: "upstruct h1 (node # rev ?P)" by (simp add: descent_place)
  from upcol_descent[OF assms(3,5), of ?cmp h ?k] have "upcol h (rev ?P)" .
  then have co: "upcol h1 (rev ?P)" using kc by (subst upcol_cong[where g = h]) simp_all
  from up_path_facts(2)[OF assms(1,2,6) rt1] have la: "last (node # rev ?P) = rt1" .
  have rb: "rev ?P \<noteq> [] \<longrightarrow> color (h1 rt1) = NODE_COLOR_BLACK"
  proof (cases t)
    case Tip
    then show ?thesis by simp
  next
    case (Br l a r)
    with assms(1,4) rt1 kc show ?thesis by (simp add: inv_root_black_def)
  qed
  have le: "length (node # rev ?P) \<le> n"
    using length_descent[of ?cmp h ?k t] assms(10) by simp
  from insert_while_returns[OF us uc co la rb le]
  obtain rt' g' where w: "insert_while n rt1 node h1 = Inr (rt', g')" and r0: "rt' \<noteq> NULL"
    by blast
  from b w r0 show ?thesis by (simp add: insertRbNode_def)
qed

section \<open>The size field\<close>

lemma insertRbNode_size_rb:
  "insertRbNode n tree p h = Inr (ret, tree', h') \<Longrightarrow> ret = 0 \<and> size_rb tree' = size_rb tree"
  by (auto simp: insertRbNode_def split: sum.splits if_splits)

lemma deleteRbNode_size_rb:
  "deleteRbNode n tree p h = Inr (tree', h') \<Longrightarrow> size_rb tree' = size_rb tree"
  by (auto simp: deleteRbNode_def split: sum.splits)

lemma run_calls_size_rb:
  "run_calls n cs tree h = Inr (tree', h') \<Longrightarrow> size_rb tree' = size_rb tree"
proof (induction cs arbitrary: tree h)
  case Nil
  then show ?case by simp
next
  case (Cons c cs)
  show ?case
  proof (cases c)
    case (Ins p)
    with Cons.prems obtain ret t1 h1 where i: "insertRbNode n tree p h = Inr (ret, t1, h1)"
      and r: "run_calls n cs t1 h1 = Inr (tree', h')"
      by (auto split: sum.splits)
    from Cons.IH[OF r] insertRbNode_size_rb[OF i] show ?thesis by simp
  next
    case (Del p)
    with Cons.prems obtain t1 h1 where d: "deleteRbNode n tree p h = Inr (t1, h1)"
      and r: "run_calls n cs t1 h1 = Inr (tree', h')"
      by (auto split: sum.splits)
    from Cons.IH[OF r] deleteRbNode_size_rb[OF d] show ?thesis by simp
  qed
qed

text \<open>
  Claim C4, as stated: \<open>insertRbNode\<close> increments \<open>size\<close> by one. On the code, one
  insertion into the empty tree returns 0 and leaves \<open>size\<close> at 0.
\<close>

theorem insertRbNode_size_counterexample:
  "\<not> isl (insertRbNode 10 (INIT_RBTREE blank_tree intcomparer) 1 (init_nodes [(1, 1)] blank))
   \<and> fst (projr (insertRbNode 10 (INIT_RBTREE blank_tree intcomparer) 1
                   (init_nodes [(1, 1)] blank))) = 0
   \<and> size_rb (INIT_RBTREE blank_tree intcomparer) = 0
   \<and> size_rb (fst (snd (projr (insertRbNode 10 (INIT_RBTREE blank_tree intcomparer) 1
                   (init_nodes [(1, 1)] blank))))) = 0
   \<and> size_rb (fst (snd (projr (insertRbNode 10 (INIT_RBTREE blank_tree intcomparer) 1
                   (init_nodes [(1, 1)] blank)))))
       \<noteq> size_rb (INIT_RBTREE blank_tree intcomparer) + 1"
  by code_simp

text \<open>
  Claim C4, amended: for every tree that satisfies invariants 1 to 3 and every initialised
  node that is not yet in it, \<open>insertRbNode\<close> succeeds: it returns 0 (given fuel above
  the height), and \<open>size\<close> is what it was; whenever \<open>deleteRbNode\<close> returns, \<open>size\<close> is
  what it was; after \<open>INIT_RBTREE\<close> and any sequence of insertions and deletions \<open>size\<close>
  is 0.
\<close>

theorem size_rb_never_written:
  assumes "istree h (root tree) t" and "distinct (nodes t)"
    and "inv_colors h t" and "inv_root_black h t" and "inv_no_red_red h t"
    and "node \<notin> set (nodes t)" and "node \<noteq> NULL"
    and "left (h node) = NULL" and "right (h node) = NULL" and "height t < n"
  shows "(\<exists>tree1 h1. insertRbNode n tree node h = Inr (0, tree1, h1)
            \<and> size_rb tree1 = size_rb tree)
         \<and> (deleteRbNode n tree p h = Inr (tree2, h2) \<longrightarrow> size_rb tree2 = size_rb tree)
         \<and> (run_calls n cs (INIT_RBTREE tree0 cmp) h0 = Inr (tree3, h3) \<longrightarrow> size_rb tree3 = 0)"
  using insertRbNode_returns[OF assms]
    deleteRbNode_size_rb[of n tree p h tree2 h2]
    run_calls_size_rb[of n cs "INIT_RBTREE tree0 cmp" h0 tree3 h3]
  by (auto simp: INIT_RBTREE_def)

text \<open>Witness: the tree that holds the node 1 alone (inserted into the empty tree), the
  new node 2, the deletion of 1, and the calls \<open>Ins 1\<close>, \<open>Del 1\<close> from the start.\<close>

theorem size_rb_never_written_witness:
  "istree (set_color 1 NODE_COLOR_BLACK (init_nodes [(1, 1), (2, 2)] blank))
      (root ((INIT_RBTREE blank_tree intcomparer)\<lparr>root := 1\<rparr>)) (Br Tip 1 Tip)
   \<and> distinct (nodes (Br Tip 1 Tip))
   \<and> inv_colors (set_color 1 NODE_COLOR_BLACK (init_nodes [(1, 1), (2, 2)] blank)) (Br Tip 1 Tip)
   \<and> inv_root_black (set_color 1 NODE_COLOR_BLACK (init_nodes [(1, 1), (2, 2)] blank))
        (Br Tip 1 Tip)
   \<and> inv_no_red_red (set_color 1 NODE_COLOR_BLACK (init_nodes [(1, 1), (2, 2)] blank))
        (Br Tip 1 Tip)
   \<and> 2 \<notin> set (nodes (Br Tip 1 Tip)) \<and> (2::ptr) \<noteq> NULL
   \<and> left (set_color 1 NODE_COLOR_BLACK (init_nodes [(1, 1), (2, 2)] blank) 2) = NULL
   \<and> right (set_color 1 NODE_COLOR_BLACK (init_nodes [(1, 1), (2, 2)] blank) 2) = NULL
   \<and> height (Br Tip 1 Tip) < 10
   \<and> deleteRbNode 10 ((INIT_RBTREE blank_tree intcomparer)\<lparr>root := 1\<rparr>) 1
       (set_color 1 NODE_COLOR_BLACK (init_nodes [(1, 1), (2, 2)] blank))
     = Inr ((INIT_RBTREE blank_tree intcomparer)\<lparr>root := 1\<rparr>,
            set_color 1 NODE_COLOR_BLACK (init_nodes [(1, 1), (2, 2)] blank))
   \<and> run_calls 10 [Ins 1, Del 1] (INIT_RBTREE blank_tree intcomparer)
       (init_nodes [(1, 1), (2, 2)] blank)
     = Inr ((INIT_RBTREE blank_tree intcomparer)\<lparr>root := 1\<rparr>,
            set_color 1 NODE_COLOR_BLACK (init_nodes [(1, 1), (2, 2)] blank))
   \<and> (\<exists>tree1 h1. insertRbNode 10 ((INIT_RBTREE blank_tree intcomparer)\<lparr>root := 1\<rparr>) 2
          (set_color 1 NODE_COLOR_BLACK (init_nodes [(1, 1), (2, 2)] blank)) = Inr (0, tree1, h1)
        \<and> size_rb tree1 = 0)
   \<and> size_rb ((INIT_RBTREE blank_tree intcomparer)\<lparr>root := 1\<rparr>) = 0"
proof -
  let ?ti = "INIT_RBTREE blank_tree intcomparer"
  let ?hi = "init_nodes [(1, 1), (2, 2)] blank"
  let ?t = "?ti\<lparr>root := 1\<rparr>"
  let ?h = "set_color 1 NODE_COLOR_BLACK ?hi"
  have a1: "istree ?h (root ?t) (Br Tip 1 Tip)"
    by (simp add: set_color_def INIT_RBNODE_def)
  have a2: "distinct (nodes (Br Tip 1 Tip))" by simp
  have a3: "inv_colors ?h (Br Tip 1 Tip)" by (simp add: inv_colors_def set_color_def)
  have a4: "inv_root_black ?h (Br Tip 1 Tip)" by (simp add: inv_root_black_def set_color_def)
  have a5: "inv_no_red_red ?h (Br Tip 1 Tip)" by (simp add: is_red_def)
  have a6: "2 \<notin> set (nodes (Br Tip 1 Tip))" by simp
  have a7: "(2::ptr) \<noteq> NULL" by simp
  have a8: "left (?h 2) = NULL" by (simp add: set_color_def INIT_RBNODE_def)
  have a9: "right (?h 2) = NULL" by (simp add: set_color_def INIT_RBNODE_def)
  have a10: "height (Br Tip 1 Tip) < 10" by simp
  have i: "insertRbNode 10 ?ti 1 ?hi = Inr (0, ?t, ?h)"
    by (simp add: insertRbNode_def numeral_eq_Suc INIT_RBTREE_def)
  have b: "BstDelete 10 1 1 ?h = Inr (NULL, ?h)"
    by (simp add: BstDelete_def set_color_def INIT_RBNODE_def)
  then have d: "deleteRbNode 10 ?t 1 ?h = Inr (?t, ?h)"
    by (simp add: deleteRbNode_def)
  have r: "run_calls 10 [Ins 1, Del 1] ?ti ?hi = Inr (?t, ?h)"
    by (simp only: run_calls.simps i d sum.case prod.case)
  note th = size_rb_never_written[OF a1 a2 a3 a4 a5 a6 a7 a8 a9 a10,
      where p = 1 and ?tree2.0 = ?t and ?h2.0 = ?h and cs = "[Ins 1, Del 1]"
      and ?tree0.0 = blank_tree and cmp = intcomparer and ?h0.0 = ?hi
      and ?tree3.0 = ?t and ?h3.0 = ?h]
  from th[THEN conjunct2, THEN conjunct2] r have sz: "size_rb ?t = 0" by (rule mp)
  from th[THEN conjunct1] sz
  have ex: "\<exists>tree1 h1. insertRbNode 10 ?t 2 ?h = Inr (0, tree1, h1) \<and> size_rb tree1 = 0"
    by simp
  from a1 a2 a3 a4 a5 a6 a7 a8 a9 a10 d r ex sz show ?thesis by (intro conjI)
qed

end
